theory Spec2Isabelle
  imports Complex_Main
begin

section \<open>Data model\<close>

text \<open>
  The chart of direct flights per airline (\<^verbatim>\<open>src/App.tsx\<close>, the documented
  \<^verbatim>\<open>LineChart\<close> component, and its sibling \<^verbatim>\<open>src/components/LineChart.tsx\<close>).
  JavaScript numbers are modelled as real numbers in the generator and the component;
  the claims settled on them do not depend on the last bit of a double. The bound on
  the perturbation does, so the perturbation is embedded a second time with the
  roundings of IEEE 754 binary64 (section on binary64 arithmetic below).
\<close>

datatype airline_group = operating | discontinued

record Airline =
  code :: string
  name :: string
  color :: string
  group :: airline_group

text \<open>
  \<^verbatim>\<open>interface DataPoint { year: number; [key: string]: number }\<close>: one JavaScript object
  whose keys are \<^verbatim>\<open>year\<close> and the airline codes. A key that was never written reads as
  \<^verbatim>\<open>undefined\<close>, here \<open>None\<close>.
\<close>

type_synonym DataPoint = "string \<rightharpoonup> real"

text \<open>
  \<^verbatim>\<open>Math.random()\<close> is the only source of randomness. The \<open>k\<close>-th call of one run
  (counted from 0) returns \<open>rnd k\<close>; the generator threads the number of calls made so
  far. JavaScript guarantees a result in \<open>[0, 1)\<close>.
\<close>

type_synonym random = "nat \<Rightarrow> real"

definition valid_random :: "random \<Rightarrow> bool" where
  "valid_random rnd \<longleftrightarrow> (\<forall>k. 0 \<le> rnd k \<and> rnd k < 1)"

text \<open>\<^verbatim>\<open>Math.round\<close>: the nearest integer, a tie going up.\<close>

definition Math_round :: "real \<Rightarrow> int" where
  "Math_round x = \<lfloor>x + 1 / 2\<rfloor>"

section \<open>The catalog\<close>

definition operatingColors :: "string list" where
  "operatingColors = [''#1f77b4'', ''#2ca02c'', ''#ff7f0e'', ''#d62728'', ''#9467bd'',
     ''#8c564b'', ''#e377c2'', ''#7f7f7f'', ''#bcbd22'', ''#17becf'']"

definition discontinuedColors :: "string list" where
  "discontinuedColors = [''#aec7e8'', ''#98df8a'', ''#ffbb78'', ''#ff9896'', ''#c5b0d5'',
     ''#c49c94'', ''#f7b6d3'', ''#c7c7c7'', ''#dbdb8d'', ''#9edae5'']"

text \<open>\<^verbatim>\<open>codes.map((code, index) => ({code, name, color: palette[index], group}))\<close>\<close>

definition mkAirlines :: "string list \<Rightarrow> airline_group \<Rightarrow> string list \<Rightarrow> Airline list" where
  "mkAirlines palette g codes =
     map (\<lambda>(c, index). \<lparr>code = c, name = ''Airline '' @ c, color = palette ! index, group = g\<rparr>)
       (zip codes [0 ..< length codes])"

definition generateAirlines :: "Airline list" where
  "generateAirlines =
     (let operatingAirlines =
            mkAirlines operatingColors operating [''LX'', ''BA'', ''AF'', ''LH'', ''KL'', ''IB''];
          discontinuedAirlines =
            mkAirlines discontinuedColors discontinued [''CX'', ''LZ'', ''C3'', ''UL'', ''AA'', ''DL'']
      in operatingAirlines @ discontinuedAirlines)"

section \<open>The generator of \<^verbatim>\<open>src/App.tsx\<close>\<close>

definition years :: "nat list" where
  "years = map (\<lambda>i. 2010 + i) [0 ..< 15]"

definition months :: "nat list" where
  "months = map (\<lambda>i. i + 1) [0 ..< 12]"

text \<open>
  The first loop over the catalog: one call of \<^verbatim>\<open>Math.random()\<close> per airline, stored in
  \<^verbatim>\<open>lastValues[airline.code]\<close>.
\<close>

definition initLastValue ::
  "random \<Rightarrow> Airline \<Rightarrow> (string \<rightharpoonup> real) \<times> nat \<Rightarrow> (string \<rightharpoonup> real) \<times> nat" where
  "initLastValue rnd airline = (\<lambda>(lastValues, k).
     if group airline = operating
     then (lastValues(code airline \<mapsto> rnd k * 2000 + 2000), k + 1)
     else (lastValues(code airline \<mapsto> rnd k * 1500 + 1000), k + 1))"

definition initLastValues :: "random \<Rightarrow> Airline list \<Rightarrow> (string \<rightharpoonup> real) \<times> nat" where
  "initLastValues rnd airlines = fold (initLastValue rnd) airlines (Map.empty, 0)"

text \<open>
  The body of the innermost loop, in three parts. First the perturbation:
  \<^verbatim>\<open>maxVariation = lastValue * 0.08; variation = (Math.random() - 0.5) * 2 * maxVariation;
  newValue = lastValue + variation\<close>.
\<close>

definition perturbed :: "real \<Rightarrow> real \<Rightarrow> real" where
  "perturbed lastValue r =
     (let maxVariation = lastValue * 0.08;
          variation = (r - 0.5) * 2 * maxVariation
      in lastValue + variation)"

text \<open>Then the trends of the airline's group, each ending with its clamp.\<close>

definition applyTrends :: "airline_group \<Rightarrow> nat \<Rightarrow> nat \<Rightarrow> real \<Rightarrow> real" where
  "applyTrends g year month newValue =
     (if g = operating then
        (let newValue = (if year = 2020 \<and> month \<ge> 3 \<and> month \<le> 6 then newValue * 0.85 else newValue);
             newValue = (if year = 2021 \<or> (year = 2022 \<and> month \<le> 6) then newValue * 1.02 else newValue)
         in max 800 (min 5500 newValue))
      else
        (let newValue = (if year > 2015 then newValue * 0.997 else newValue);
             newValue = (if year > 2018 then newValue * 0.995 else newValue)
         in max 100 (min 3500 newValue)))"

text \<open>
  Last the two stores: \<^verbatim>\<open>lastValues[airline.code] = newValue\<close> and
  \<^verbatim>\<open>dataPoint[airline.code] = Math.round(newValue)\<close>. The read of
  \<^verbatim>\<open>lastValues[airline.code]\<close> is \<open>the\<close> of the lookup: the first loop has written
  every code of the catalog (lemma \<open>initLastValues_defined\<close> below).
\<close>

definition airlineStep ::
  "random \<Rightarrow> nat \<Rightarrow> nat \<Rightarrow> Airline \<Rightarrow>
     (string \<rightharpoonup> real) \<times> DataPoint \<times> nat \<Rightarrow> (string \<rightharpoonup> real) \<times> DataPoint \<times> nat" where
  "airlineStep rnd year month airline = (\<lambda>(lastValues, dataPoint, k).
     let lastValue = the (lastValues (code airline));
         newValue = perturbed lastValue (rnd k);
         newValue = applyTrends (group airline) year month newValue
     in (lastValues(code airline \<mapsto> newValue),
         dataPoint(code airline \<mapsto> real_of_int (Math_round newValue)),
         k + 1))"

text \<open>One month: a fresh data point, the loop over the catalog, \<^verbatim>\<open>data.push(dataPoint)\<close>.\<close>

definition monthStep ::
  "random \<Rightarrow> Airline list \<Rightarrow> nat \<Rightarrow> nat \<Rightarrow>
     (string \<rightharpoonup> real) \<times> DataPoint list \<times> nat \<Rightarrow> (string \<rightharpoonup> real) \<times> DataPoint list \<times> nat" where
  "monthStep rnd airlines year month = (\<lambda>(lastValues, data, k).
     let dataPoint = [''year'' \<mapsto> real year + (real month - 1) / 12];
         (lastValues, dataPoint, k) = fold (airlineStep rnd year month) airlines (lastValues, dataPoint, k)
     in (lastValues, data @ [dataPoint], k))"

definition yearStep ::
  "random \<Rightarrow> Airline list \<Rightarrow> nat \<Rightarrow>
     (string \<rightharpoonup> real) \<times> DataPoint list \<times> nat \<Rightarrow> (string \<rightharpoonup> real) \<times> DataPoint list \<times> nat" where
  "yearStep rnd airlines year = fold (monthStep rnd airlines year) months"

definition generateData :: "random \<Rightarrow> Airline list \<Rightarrow> DataPoint list" where
  "generateData rnd airlines =
     (let (lastValues, k) = initLastValues rnd airlines;
          (lastValues, data, k) = fold (yearStep rnd airlines) years (lastValues, [], k)
      in data)"

section \<open>The perturbation in binary64 arithmetic\<close>

text \<open>
  A JavaScript number is an IEEE 754 binary64 value and every arithmetic operation
  rounds its exact result to the nearest such value, a tie going to the even
  significand. \<open>round_even\<close> rounds a significand to an integer; \<open>normalise\<close> scales
  a positive number into \<open>[2 ^ 52, 2 ^ 53)\<close> by halving or doubling, the exponent
  stopping at -1074, where the subnormal numbers lie; \<open>fl\<close> is the rounding. Results of
  \<open>2 ^ 1024\<close> and more, which JavaScript turns into \<^verbatim>\<open>Infinity\<close>, are not modelled:
  no value of the generator comes near.
\<close>

definition round_even :: "real \<Rightarrow> int" where
  "round_even y =
     (let f = \<lfloor>y\<rfloor>; d = y - real_of_int f
      in if d < 1 / 2 then f else if 1 / 2 < d then f + 1 else if even f then f else f + 1)"

fun normalise :: "nat \<Rightarrow> real \<Rightarrow> int \<Rightarrow> real \<times> int" where
  "normalise 0 m e = (m, e)"
| "normalise (Suc n) m e =
     (if 2 ^ 53 \<le> m then normalise n (m / 2) (e + 1)
      else if m < 2 ^ 52 \<and> - 1074 < e then normalise n (m * 2) (e - 1)
      else (m, e))"

definition fl :: "real \<Rightarrow> real" where
  "fl x = (case normalise 1074 \<bar>x\<bar> 0 of (m, e) \<Rightarrow> sgn x * real_of_int (round_even m) * 2 powi e)"

text \<open>
  The three lines of the perturbation, the same in both files, operation by operation:
  \<^verbatim>\<open>lastValue * 0.08\<close>, then \<^verbatim>\<open>((Math.random() - 0.5) * 2) * maxVariation\<close> from left
  to right, then the sum. The literal \<^verbatim>\<open>0.08\<close> is the double nearest to it; 0.5 and 2
  are doubles.
\<close>

definition perturbed64 :: "real \<Rightarrow> real \<Rightarrow> real" where
  "perturbed64 lastValue r =
     (let maxVariation = fl (lastValue * fl 0.08);
          variation = fl (fl (fl (r - 0.5) * 2) * maxVariation)
      in fl (lastValue + variation))"

text \<open>The starting value and the trends in the same arithmetic; the clamp does not round.\<close>

definition initialValue64 :: "airline_group \<Rightarrow> real \<Rightarrow> real" where
  "initialValue64 g r =
     (if g = operating then fl (fl (r * 2000) + 2000) else fl (fl (r * 1500) + 1000))"

definition applyTrends64 :: "airline_group \<Rightarrow> nat \<Rightarrow> nat \<Rightarrow> real \<Rightarrow> real" where
  "applyTrends64 g year month newValue =
     (if g = operating then
        (let newValue = (if year = 2020 \<and> month \<ge> 3 \<and> month \<le> 6 then fl (newValue * fl 0.85) else newValue);
             newValue = (if year = 2021 \<or> (year = 2022 \<and> month \<le> 6) then fl (newValue * fl 1.02) else newValue)
         in max 800 (min 5500 newValue))
      else
        (let newValue = (if year > 2015 then fl (newValue * fl 0.997) else newValue);
             newValue = (if year > 2018 then fl (newValue * fl 0.995) else newValue)
         in max 100 (min 3500 newValue)))"

section \<open>The generator of \<^verbatim>\<open>src/components/LineChart.tsx\<close>\<close>

text \<open>
  The sibling file has its own \<^verbatim>\<open>generateData\<close>, embedded here from its own text
  (names with the suffix \<open>_LC\<close>).
\<close>

definition initLastValue_LC ::
  "random \<Rightarrow> Airline \<Rightarrow> (string \<rightharpoonup> real) \<times> nat \<Rightarrow> (string \<rightharpoonup> real) \<times> nat" where
  "initLastValue_LC rnd airline = (\<lambda>(lastValues, k).
     if group airline = operating
     then (lastValues(code airline \<mapsto> rnd k * 2000 + 2000), k + 1)
     else (lastValues(code airline \<mapsto> rnd k * 1500 + 1000), k + 1))"

definition airlineStep_LC ::
  "random \<Rightarrow> nat \<Rightarrow> nat \<Rightarrow> Airline \<Rightarrow>
     (string \<rightharpoonup> real) \<times> DataPoint \<times> nat \<Rightarrow> (string \<rightharpoonup> real) \<times> DataPoint \<times> nat" where
  "airlineStep_LC rnd year month airline = (\<lambda>(lastValues, dataPoint, k).
     let lastValue = the (lastValues (code airline));
         maxVariation = lastValue * 0.08;
         variation = (rnd k - 0.5) * 2 * maxVariation;
         newValue = lastValue + variation;
         newValue =
           (if group airline = operating then
              (let newValue = (if year = 2020 \<and> month \<ge> 3 \<and> month \<le> 6 then newValue * 0.85 else newValue);
                   newValue = (if year = 2021 \<or> (year = 2022 \<and> month \<le> 6) then newValue * 1.02 else newValue)
               in max 800 (min 5500 newValue))
            else
              (let newValue = (if year > 2015 then newValue * 0.997 else newValue);
                   newValue = (if year > 2018 then newValue * 0.995 else newValue)
               in max 100 (min 3500 newValue)))
     in (lastValues(code airline \<mapsto> newValue),
         dataPoint(code airline \<mapsto> real_of_int (Math_round newValue)),
         k + 1))"

definition generateData_LC :: "random \<Rightarrow> Airline list \<Rightarrow> DataPoint list" where
  "generateData_LC rnd airlines =
     (let years = map (\<lambda>i. 2010 + i) [0 ..< 15];
          months = map (\<lambda>i. i + 1) [0 ..< 12];
          (lastValues, k) = fold (initLastValue_LC rnd) airlines (Map.empty, 0);
          (lastValues, data, k) =
            fold (\<lambda>year. fold (\<lambda>month (lastValues, data, k).
                    let dataPoint = [''year'' \<mapsto> real year + (real month - 1) / 12];
                        (lastValues, dataPoint, k) =
                          fold (airlineStep_LC rnd year month) airlines (lastValues, dataPoint, k)
                    in (lastValues, data @ [dataPoint], k)) months) years (lastValues, [], k)
      in data)"

section \<open>The component\<close>

text \<open>
  What one mounted \<^verbatim>\<open>LineChart\<close> holds: its prop \<^verbatim>\<open>singleAirlineMode\<close>, the two
  memoised constants \<^verbatim>\<open>airlines\<close> and \<^verbatim>\<open>data\<close>, the four \<^verbatim>\<open>useState\<close> cells and
  the \<^verbatim>\<open>useRef\<close> cell of the throttle (which only the component of
  \<^verbatim>\<open>src/App.tsx\<close> has; the sibling's functions never touch it). Every closure of the
  component is a function of this record.
\<close>

record LineChart =
  singleAirlineMode :: bool
  airlines :: "Airline list"
  data :: "DataPoint list"
  hiddenItems :: "string set"
  hiddenGroups :: "airline_group set"
  hoveredItem :: "string option"
  activeIndex :: "nat option"
  lastUpdateRef :: int

text \<open>
  Mounting: \<^verbatim>\<open>useMemo(() => generateAirlines(), [])\<close>,
  \<^verbatim>\<open>useMemo(() => generateData(airlines), [airlines])\<close>, empty sets, \<^verbatim>\<open>null\<close>,
  \<^verbatim>\<open>null\<close>, \<^verbatim>\<open>useRef(0)\<close>.
\<close>

definition mount :: "random \<Rightarrow> bool \<Rightarrow> LineChart" where
  "mount rnd mode =
     \<lparr>singleAirlineMode = mode, airlines = generateAirlines,
      data = generateData rnd generateAirlines,
      hiddenItems = {}, hiddenGroups = {}, hoveredItem = None, activeIndex = None,
      lastUpdateRef = 0\<rparr>"

text \<open>
  \<^verbatim>\<open>App\<close> owns the mode and passes it down:
  \<^verbatim>\<open>onChange={(e) => setSingleAirlineMode(e.target.checked)}\<close>. The chart is rendered
  again with the new prop; its hooks keep their cells.
\<close>

definition setSingleAirlineMode :: "bool \<Rightarrow> LineChart \<Rightarrow> LineChart" where
  "setSingleAirlineMode checked c = c\<lparr>singleAirlineMode := checked\<rparr>"

subsection \<open>Visibility handlers\<close>

definition toggleItem :: "string \<Rightarrow> LineChart \<Rightarrow> LineChart" where
  "toggleItem c s =
     s\<lparr>hiddenItems := (if c \<in> hiddenItems s then hiddenItems s - {c} else insert c (hiddenItems s))\<rparr>"

definition toggleGroup :: "airline_group \<Rightarrow> LineChart \<Rightarrow> LineChart" where
  "toggleGroup g s =
     s\<lparr>hiddenGroups := (if g \<in> hiddenGroups s then hiddenGroups s - {g} else insert g (hiddenGroups s))\<rparr>"

definition setHoveredItem :: "string option \<Rightarrow> LineChart \<Rightarrow> LineChart" where
  "setHoveredItem h s = s\<lparr>hoveredItem := h\<rparr>"

definition setActiveIndex :: "nat option \<Rightarrow> LineChart \<Rightarrow> LineChart" where
  "setActiveIndex i s = s\<lparr>activeIndex := i\<rparr>"

definition isItemVisible :: "LineChart \<Rightarrow> Airline \<Rightarrow> bool" where
  "isItemVisible s airline =
     (if group airline \<in> hiddenGroups s then False
      else if code airline \<in> hiddenItems s then False
      else True)"

subsection \<open>Line styling\<close>

definition getLineOpacity :: "LineChart \<Rightarrow> Airline \<Rightarrow> real" where
  "getLineOpacity s airline =
     (if group airline \<in> hiddenGroups s then 0
      else if code airline \<in> hiddenItems s then 0
      else if \<not> singleAirlineMode s then 1
      else if hoveredItem s = None then 1
      else if hoveredItem s = Some (code airline) then 1
      else 0.08)"

definition getLineOpacity_LC :: "LineChart \<Rightarrow> Airline \<Rightarrow> real" where
  "getLineOpacity_LC s airline =
     (if \<not> isItemVisible s airline then 0
      else if \<not> singleAirlineMode s then 1
      else if hoveredItem s = None then 1
      else if hoveredItem s = Some (code airline) then 1
      else 0.15)"

definition getLineWidth :: "LineChart \<Rightarrow> Airline \<Rightarrow> real" where
  "getLineWidth s airline = (if hoveredItem s = Some (code airline) then 3 else 2)"

text \<open>The \<^verbatim>\<open>activeDot\<close> prop of the visible line: the radius of the dot, or \<^verbatim>\<open>false\<close>.\<close>

definition activeDot :: "LineChart \<Rightarrow> Airline \<Rightarrow> real option" where
  "activeDot s airline =
     (if activeIndex s \<noteq> None \<and>
         (if singleAirlineMode s then hoveredItem s = Some (code airline) else isItemVisible s airline)
      then Some (if singleAirlineMode s then 6 else 4)
      else None)"

subsection \<open>Tooltip\<close>

text \<open>
  What \<^verbatim>\<open>CustomTooltip\<close> renders, without the markup: in single airline mode the
  airline found, \<^verbatim>\<open>dataPoint.year\<close> (given to \<^verbatim>\<open>formatDate\<close>) and the value shown;
  in classic mode \<^verbatim>\<open>dataPoint.year\<close> and one row per visible airline. The value shown is
  \<^verbatim>\<open>value?.toLocaleString() || 0\<close>: the number itself (its locale string is never empty),
  and 0 for \<^verbatim>\<open>undefined\<close>. \<^verbatim>\<open>null\<close> is \<open>None\<close>.
\<close>

datatype Tooltip =
  Single Airline "real option" real
| Classic "real option" "(Airline \<times> real) list"

definition shownValue :: "real option \<Rightarrow> real" where
  "shownValue v = (case v of None \<Rightarrow> 0 | Some x \<Rightarrow> x)"

text \<open>
  \<^verbatim>\<open>data[activeIndex]\<close> is \<^verbatim>\<open>undefined\<close> beyond the array; \<^verbatim>\<open>!hoveredItem\<close>
  holds of \<^verbatim>\<open>null\<close> and of the empty string. The function is the same text in both
  files.
\<close>

definition CustomTooltip :: "LineChart \<Rightarrow> Tooltip option" where
  "CustomTooltip s =
     (case activeIndex s of
        None \<Rightarrow> None
      | Some i \<Rightarrow>
          if \<not> i < length (data s) then None
          else
            let dataPoint = data s ! i in
            if singleAirlineMode s then
              (case hoveredItem s of
                 None \<Rightarrow> None
               | Some h \<Rightarrow>
                   if h = [] then None
                   else
                     (case find (\<lambda>a. code a = h) (airlines s) of
                        None \<Rightarrow> None
                      | Some airline \<Rightarrow>
                          Some (Single airline (dataPoint ''year'') (shownValue (dataPoint h)))))
            else
              let visibleAirlines = filter (isItemVisible s) (airlines s) in
              if length visibleAirlines = 0 then None
              else Some (Classic (dataPoint ''year'')
                     (map (\<lambda>airline. (airline, shownValue (dataPoint (code airline)))) visibleAirlines)))"

subsection \<open>Mouse handlers\<close>

text \<open>
  The argument of \<^verbatim>\<open>onMouseMove\<close>: \<^verbatim>\<open>null\<close> or an object whose
  \<^verbatim>\<open>activeTooltipIndex\<close> may be \<^verbatim>\<open>undefined\<close>. \<open>now\<close> is what \<^verbatim>\<open>Date.now()\<close>
  returns when the handler runs, in milliseconds.
\<close>

record MouseState =
  activeTooltipIndex :: "nat option"

definition throttleMs :: int where
  "throttleMs = 16"

definition handleMouseMove :: "int \<Rightarrow> MouseState option \<Rightarrow> LineChart \<Rightarrow> LineChart" where
  "handleMouseMove now state s =
     (if now - lastUpdateRef s < throttleMs then s
      else
        let s = s\<lparr>lastUpdateRef := now\<rparr> in
        (case state of
           None \<Rightarrow> s
         | Some st \<Rightarrow>
             (case activeTooltipIndex st of
                None \<Rightarrow> s
              | Some i \<Rightarrow> setActiveIndex (Some i) s)))"

definition handleMouseLeave :: "LineChart \<Rightarrow> LineChart" where
  "handleMouseLeave s = setActiveIndex None s"

text \<open>
  The sibling's handlers. Its \<^verbatim>\<open>handleMouseMove\<close> never calls \<^verbatim>\<open>Date.now()\<close>; the
  model passes the time of the event all the same, so that both handlers run on one
  feed of events.
\<close>

definition handleMouseMove_LC :: "int \<Rightarrow> MouseState option \<Rightarrow> LineChart \<Rightarrow> LineChart" where
  "handleMouseMove_LC now state s =
     (case state of
        None \<Rightarrow> s
      | Some st \<Rightarrow>
          (case activeTooltipIndex st of
             None \<Rightarrow> s
           | Some i \<Rightarrow> setActiveIndex (Some i) s))"

definition handleMouseLeave_LC :: "LineChart \<Rightarrow> LineChart" where
  "handleMouseLeave_LC s =
     (let s = setActiveIndex None s in
      if \<not> singleAirlineMode s then s else s)"

subsection \<open>Render order\<close>

text \<open>
  \<^verbatim>\<open>Array.prototype.sort\<close> with a comparator is a stable sort (ECMAScript 2019): an
  element goes after another only when the comparator returns a positive number for
  them in that order. It is modelled as the stable insertion sort, which never compares
  an element with itself.
\<close>

fun insert_by :: "('a \<Rightarrow> 'a \<Rightarrow> int) \<Rightarrow> 'a \<Rightarrow> 'a list \<Rightarrow> 'a list" where
  "insert_by cmp x [] = [x]"
| "insert_by cmp x (y # ys) = (if cmp x y \<le> 0 then x # y # ys else y # insert_by cmp x ys)"

definition Array_sort :: "('a \<Rightarrow> 'a \<Rightarrow> int) \<Rightarrow> 'a list \<Rightarrow> 'a list" where
  "Array_sort cmp xs = foldr (insert_by cmp) xs []"

definition sortedAirlines :: "LineChart \<Rightarrow> Airline list" where
  "sortedAirlines s =
     Array_sort (\<lambda>a b. if Some (code a) = hoveredItem s then 1
                        else if Some (code b) = hoveredItem s then - 1
                        else 0) (airlines s)"

subsection \<open>Events\<close>

text \<open>
  The wiring of the markup of \<^verbatim>\<open>src/App.tsx\<close>: a legend item toggles on click and
  hovers on enter and leave, as does the hit-area line of an airline; a group header
  toggles its group; the chart area reports moves and leaves.
\<close>

datatype Event =
  ClickItem string
| ClickGroup airline_group
| MouseEnterItem string
| MouseLeaveItem
| ChartMouseMove int "MouseState option"
| ChartMouseLeave

fun handleEvent :: "Event \<Rightarrow> LineChart \<Rightarrow> LineChart" where
  "handleEvent (ClickItem c) s = toggleItem c s"
| "handleEvent (ClickGroup g) s = toggleGroup g s"
| "handleEvent (MouseEnterItem c) s = setHoveredItem (Some c) s"
| "handleEvent MouseLeaveItem s = setHoveredItem None s"
| "handleEvent (ChartMouseMove now state) s = handleMouseMove now state s"
| "handleEvent ChartMouseLeave s = handleMouseLeave s"

section \<open>Loop states, sample inputs and invariants\<close>

text \<open>
  The state of \<^verbatim>\<open>generateData\<close> at the points of its loops: after the first loop;
  after the whole years \<open>ys\<close> and, in the year \<open>year\<close>, the months \<open>ms\<close>; and, inside
  the month \<open>month\<close>, after the airlines \<open>before\<close>. With \<open>ys\<close> a prefix of \<open>years\<close>,
  \<open>ms\<close> a prefix of \<open>months\<close> and \<open>before\<close> a prefix of the catalog these are the states
  in which the loop bodies run.
\<close>

definition startState :: "random \<Rightarrow> Airline list \<Rightarrow> (string \<rightharpoonup> real) \<times> DataPoint list \<times> nat" where
  "startState rnd catalog = (case initLastValues rnd catalog of (lastValues, k) \<Rightarrow> (lastValues, [], k))"

definition monthLoopState ::
  "random \<Rightarrow> Airline list \<Rightarrow> nat list \<Rightarrow> nat \<Rightarrow> nat list \<Rightarrow> (string \<rightharpoonup> real) \<times> DataPoint list \<times> nat" where
  "monthLoopState rnd catalog ys year ms =
     fold (monthStep rnd catalog year) ms (fold (yearStep rnd catalog) ys (startState rnd catalog))"

definition airlineLoopState ::
  "random \<Rightarrow> Airline list \<Rightarrow> nat list \<Rightarrow> nat \<Rightarrow> nat list \<Rightarrow> nat \<Rightarrow> Airline list \<Rightarrow>
     (string \<rightharpoonup> real) \<times> DataPoint \<times> nat" where
  "airlineLoopState rnd catalog ys year ms month before =
     (case monthLoopState rnd catalog ys year ms of (lastValues, dt, k) \<Rightarrow>
        fold (airlineStep rnd year month) before
          (lastValues, [''year'' \<mapsto> real year + (real month - 1) / 12], k))"

text \<open>Random sources for concrete runs: a constant one, and one whose first draw differs.\<close>

definition constantSource :: "real \<Rightarrow> random" where
  "constantSource r k = r"

definition sourceWithFirst :: "real \<Rightarrow> real \<Rightarrow> random" where
  "sourceWithFirst r0 r k = (if k = 0 then r0 else r)"

text \<open>A catalog of two operating and two discontinued airlines.\<close>

definition testCatalog :: "Airline list" where
  "testCatalog =
     mkAirlines operatingColors operating [''LX'', ''BA''] @
     mkAirlines discontinuedColors discontinued [''CX'', ''LZ'']"

definition airlineLX :: Airline where
  "airlineLX = \<lparr>code = ''LX'', name = ''Airline LX'', color = ''#1f77b4'', group = operating\<rparr>"

definition airlineCX :: Airline where
  "airlineCX = \<lparr>code = ''CX'', name = ''Airline CX'', color = ''#aec7e8'', group = discontinued\<rparr>"

text \<open>
  A freshly mounted chart in single airline mode, fed by the constant source, with LX
  hovered and the pointer at the sample of index 5.
\<close>

definition hoverLX5 :: LineChart where
  "hoverLX5 = setActiveIndex (Some 5) (setHoveredItem (Some ''LX'') (mount (constantSource (1 / 2)) True))"

text \<open>Predicates for the invariants of the loops.\<close>

definition stored_ge :: "real \<Rightarrow> string set \<Rightarrow> (string \<rightharpoonup> real) \<Rightarrow> bool" where
  "stored_ge b C lastValues \<longleftrightarrow> (\<forall>c\<in>C. \<exists>v. lastValues c = Some v \<and> b \<le> v)"

definition in_band :: "airline_group \<Rightarrow> real \<Rightarrow> bool" where
  "in_band g v \<longleftrightarrow> (if g = operating then 800 \<le> v \<and> v \<le> 5500 else 100 \<le> v \<and> v \<le> 3500)"

definition rounded_at :: "(string \<rightharpoonup> real) \<times> DataPoint \<times> nat \<Rightarrow> string \<Rightarrow> bool" where
  "rounded_at S c \<longleftrightarrow> (\<exists>v. fst S c = Some v \<and> fst (snd S) c = Some (real_of_int (Math_round v)))"

definition initialValue :: "airline_group \<Rightarrow> real" where
  "initialValue g = (if g = operating then 1 / 2 * 2000 + 2000 else 1 / 2 * 1500 + 1000)"

definition stored_initial :: "Airline list \<Rightarrow> (string \<rightharpoonup> real) \<Rightarrow> bool" where
  "stored_initial catalog lv \<longleftrightarrow> (\<forall>a\<in>set catalog. lv (code a) = Some (initialValue (group a)))"

section \<open>The loop body\<close>

lemma constantSource_half: "constantSource (1 / 2) k = 1 / 2"
  by (simp add: constantSource_def)

lemma valid_random_constantSource: "valid_random (constantSource (1 / 2))"
  by (simp add: valid_random_def constantSource_def)

lemma airlineStep_eq:
  "airlineStep rnd y m a (lv, dp, k) =
     (lv(code a \<mapsto> applyTrends (group a) y m (perturbed (the (lv (code a))) (rnd k))),
      dp(code a \<mapsto> real_of_int (Math_round (applyTrends (group a) y m (perturbed (the (lv (code a))) (rnd k))))),
      Suc k)"
  by (simp add: airlineStep_def Let_def)

lemma initLastValue_eq:
  "initLastValue rnd a (lv, k) =
     (lv(code a \<mapsto> (if group a = operating then rnd k * 2000 + 2000 else rnd k * 1500 + 1000)), Suc k)"
  by (simp add: initLastValue_def)

lemma applyTrends_operating: "800 \<le> applyTrends operating y m v \<and> applyTrends operating y m v \<le> 5500"
  by (simp add: applyTrends_def Let_def)

lemma applyTrends_discontinued: "100 \<le> applyTrends discontinued y m v \<and> applyTrends discontinued y m v \<le> 3500"
  by (simp add: applyTrends_def Let_def)

lemma applyTrends_ge_100: "100 \<le> applyTrends g y m v"
  by (cases g) (simp_all add: applyTrends_def Let_def)

lemma in_band_applyTrends: "in_band g (applyTrends g y m v)"
  using applyTrends_operating [of y m v] applyTrends_discontinued [of y m v]
  by (cases g) (simp_all add: in_band_def)

lemma Math_round_bounds:
  assumes "real_of_int lo \<le> v" "v \<le> real_of_int hi"
  shows "lo \<le> Math_round v \<and> Math_round v \<le> hi"
proof -
  have "real_of_int lo \<le> v + 1 / 2" using assms(1) by simp
  then have a: "lo \<le> \<lfloor>v + 1 / 2\<rfloor>" by (simp only: le_floor_iff)
  have "v + 1 / 2 < real_of_int hi + 1" using assms(2) by simp
  then have b: "\<lfloor>v + 1 / 2\<rfloor> \<le> hi" by (simp only: floor_le_iff)
  from a b show ?thesis by (simp add: Math_round_def)
qed

lemma in_band_Math_round: "in_band g v \<Longrightarrow> in_band g (real_of_int (Math_round v))"
proof (cases g)
  case operating
  assume "in_band g v"
  with operating have "real_of_int 800 \<le> v" "v \<le> real_of_int 5500" by (simp_all add: in_band_def)
  from Math_round_bounds [OF this] operating show ?thesis by (simp add: in_band_def)
next
  case discontinued
  assume "in_band g v"
  with discontinued have "real_of_int 100 \<le> v" "v \<le> real_of_int 3500" by (simp_all add: in_band_def)
  from Math_round_bounds [OF this] discontinued show ?thesis by (simp add: in_band_def)
qed

lemma Math_round_near: "\<bar>real_of_int (Math_round v) - v\<bar> \<le> 1 / 2"
proof -
  have "real_of_int \<lfloor>v + 1 / 2\<rfloor> \<le> v + 1 / 2" by (rule of_int_floor_le)
  moreover have "v + 1 / 2 < real_of_int \<lfloor>v + 1 / 2\<rfloor> + 1" by (rule real_of_int_floor_add_one_gt)
  ultimately show ?thesis unfolding Math_round_def by linarith
qed

lemma perturbed_half: "perturbed v (1 / 2) = v"
  by (simp add: perturbed_def Let_def)

section \<open>The loops over the catalog\<close>

text \<open>A loop over airlines leaves the entries of other codes alone.\<close>

lemma fold_initLastValue_other:
  "c \<notin> code ` set xs \<Longrightarrow> fst (fold (initLastValue rnd) xs S) c = fst S c"
proof (induction xs arbitrary: S)
  case Nil
  then show ?case by simp
next
  case (Cons x xs)
  obtain lv k where S: "S = (lv, k)" by (cases S)
  from Cons.prems have "c \<notin> code ` set xs" "c \<noteq> code x" by auto
  then show ?case by (simp add: Cons.IH S initLastValue_eq)
qed

lemma fold_airlineStep_dataPoint_other:
  "c \<notin> code ` set xs \<Longrightarrow> fst (snd (fold (airlineStep rnd y m) xs S)) c = fst (snd S) c"
proof (induction xs arbitrary: S)
  case Nil
  then show ?case by simp
next
  case (Cons x xs)
  obtain lv dp k where S: "S = (lv, dp, k)" by (cases S) auto
  from Cons.prems have "c \<notin> code ` set xs" "c \<noteq> code x" by auto
  then show ?case by (simp add: Cons.IH S airlineStep_eq)
qed

lemma fold_airlineStep_lastValues_other:
  "c \<notin> code ` set xs \<Longrightarrow> fst (fold (airlineStep rnd y m) xs S) c = fst S c"
proof (induction xs arbitrary: S)
  case Nil
  then show ?case by simp
next
  case (Cons x xs)
  obtain lv dp k where S: "S = (lv, dp, k)" by (cases S) auto
  from Cons.prems have "c \<notin> code ` set xs" "c \<noteq> code x" by auto
  then show ?case by (simp add: Cons.IH S airlineStep_eq)
qed

text \<open>The number of draws, and what the \<open>i\<close>-th airline of a catalog with distinct codes stores.\<close>

lemma calls_fold_initLastValue: "snd (fold (initLastValue rnd) xs (lv, k)) = k + length xs"
  by (induction xs arbitrary: lv k) (simp_all add: initLastValue_eq)

lemma fold_initLastValue_nth:
  "distinct (map code xs) \<Longrightarrow> i < length xs \<Longrightarrow>
     fst (fold (initLastValue rnd) xs (lv, k)) (code (xs ! i)) =
       Some (if group (xs ! i) = operating then rnd (k + i) * 2000 + 2000 else rnd (k + i) * 1500 + 1000)"
proof (induction xs arbitrary: lv k i)
  case Nil
  then show ?case by simp
next
  case (Cons x xs)
  show ?case
  proof (cases i)
    case 0
    from Cons.prems have "code x \<notin> code ` set xs" by auto
    with 0 show ?thesis by (simp add: initLastValue_eq fold_initLastValue_other)
  next
    case (Suc j)
    with Cons.prems have "distinct (map code xs)" "j < length xs" by simp_all
    from Cons.IH [OF this] Suc show ?thesis by (simp add: initLastValue_eq)
  qed
qed

lemma fold_airlineStep_nth:
  "distinct (map code xs) \<Longrightarrow> i < length xs \<Longrightarrow>
     fst (fold (airlineStep rnd y m) xs (lv, dp, k)) (code (xs ! i)) =
       Some (applyTrends (group (xs ! i)) y m (perturbed (the (lv (code (xs ! i)))) (rnd (k + i)))) \<and>
     fst (snd (fold (airlineStep rnd y m) xs (lv, dp, k))) (code (xs ! i)) =
       Some (real_of_int (Math_round
         (applyTrends (group (xs ! i)) y m (perturbed (the (lv (code (xs ! i)))) (rnd (k + i))))))"
proof (induction xs arbitrary: lv dp k i)
  case Nil
  then show ?case by simp
next
  case (Cons x xs)
  show ?case
  proof (cases i)
    case 0
    from Cons.prems have "code x \<notin> code ` set xs" by auto
    with 0 show ?thesis
      by (simp add: airlineStep_eq fold_airlineStep_lastValues_other fold_airlineStep_dataPoint_other)
  next
    case (Suc j)
    with Cons.prems have d: "distinct (map code xs)" and j: "j < length xs" by simp_all
    from Cons.prems j have "code x \<noteq> code (xs ! j)" by auto
    with Cons.IH [OF d j] Suc show ?thesis by (simp add: airlineStep_eq)
  qed
qed

lemma fold_airlineStep_in_band:
  assumes "distinct (map code xs)" "a \<in> set xs"
  shows "\<exists>v. fst (snd (fold (airlineStep rnd y m) xs S)) (code a) = Some v \<and> in_band (group a) v"
proof -
  obtain lv dp k where S: "S = (lv, dp, k)" by (cases S) auto
  from assms(2) obtain i where i: "i < length xs" "xs ! i = a" by (auto simp: in_set_conv_nth)
  from fold_airlineStep_nth [OF assms(1) i(1), of rnd y m lv dp k] i(2) show ?thesis
    by (simp add: S in_band_Math_round in_band_applyTrends)
qed

section \<open>The loops over months and years\<close>

lemma data_monthStep:
  "fst (snd (monthStep rnd catalog y m S)) =
     fst (snd S) @ [fst (snd (fold (airlineStep rnd y m) catalog
        (fst S, [''year'' \<mapsto> real y + (real m - 1) / 12], snd (snd S))))]"
  by (simp add: monthStep_def Let_def split_beta)

lemma lastValues_monthStep:
  "fst (monthStep rnd catalog y m S) =
     fst (fold (airlineStep rnd y m) catalog
        (fst S, [''year'' \<mapsto> real y + (real m - 1) / 12], snd (snd S)))"
  by (simp add: monthStep_def Let_def split_beta)

lemma data_startState: "fst (snd (startState rnd catalog)) = []"
  by (simp add: startState_def split_beta)

lemma generateData_startState:
  "generateData rnd catalog = fst (snd (fold (yearStep rnd catalog) years (startState rnd catalog)))"
  by (simp add: generateData_def startState_def Let_def split_beta)

lemma years_eq:
  "years = [2010, 2011, 2012, 2013, 2014, 2015, 2016, 2017, 2018, 2019, 2020, 2021, 2022, 2023, 2024]"
  by (simp add: years_def upt_rec)

lemma months_eq: "months = [1, 2, 3, 4, 5, 6, 7, 8, 9, 10, 11, 12]"
  by (simp add: months_def upt_rec)

text \<open>
  An invariant \<open>I\<close> of the stored last values, kept by the loop over the catalog, holds
  throughout; a property \<open>P\<close> of the data point of every month holds of the whole matrix.
\<close>

lemma fold_monthStep_inv:
  assumes step: "\<And>lv k m. I lv \<Longrightarrow>
      I (fst (fold (airlineStep rnd y m) catalog (lv, [''year'' \<mapsto> real y + (real m - 1) / 12], k))) \<and>
      P (fst (snd (fold (airlineStep rnd y m) catalog (lv, [''year'' \<mapsto> real y + (real m - 1) / 12], k))))"
  shows "I (fst S) \<Longrightarrow> \<forall>p\<in>set (fst (snd S)). P p \<Longrightarrow>
     I (fst (fold (monthStep rnd catalog y) ms S)) \<and>
     (\<forall>p\<in>set (fst (snd (fold (monthStep rnd catalog y) ms S))). P p)"
proof (induction ms arbitrary: S)
  case Nil
  then show ?case by simp
next
  case (Cons m ms)
  from step [OF Cons.prems(1), of m "snd (snd S)"] Cons.prems(2)
  have "I (fst (monthStep rnd catalog y m S))"
    "\<forall>p\<in>set (fst (snd (monthStep rnd catalog y m S))). P p"
    by (simp_all add: data_monthStep lastValues_monthStep)
  from Cons.IH [OF this] show ?case by simp
qed

lemma fold_yearStep_inv:
  "(\<forall>y\<in>set ys. \<forall>lv k m. I lv \<longrightarrow>
      I (fst (fold (airlineStep rnd y m) catalog (lv, [''year'' \<mapsto> real y + (real m - 1) / 12], k))) \<and>
      P (fst (snd (fold (airlineStep rnd y m) catalog (lv, [''year'' \<mapsto> real y + (real m - 1) / 12], k))))) \<Longrightarrow>
   I (fst S) \<Longrightarrow> \<forall>p\<in>set (fst (snd S)). P p \<Longrightarrow>
     I (fst (fold (yearStep rnd catalog) ys S)) \<and>
     (\<forall>p\<in>set (fst (snd (fold (yearStep rnd catalog) ys S))). P p)"
proof (induction ys arbitrary: S)
  case Nil
  then show ?case by simp
next
  case (Cons y ys)
  from Cons.prems(1)
  have step: "\<And>lv k m. I lv \<Longrightarrow>
      I (fst (fold (airlineStep rnd y m) catalog (lv, [''year'' \<mapsto> real y + (real m - 1) / 12], k))) \<and>
      P (fst (snd (fold (airlineStep rnd y m) catalog (lv, [''year'' \<mapsto> real y + (real m - 1) / 12], k))))"
    using list.set_intros(1) [of y ys] by blast
  have a: "I (fst (yearStep rnd catalog y S)) \<and> (\<forall>p\<in>set (fst (snd (yearStep rnd catalog y S))). P p)"
    unfolding yearStep_def
    using step Cons.prems(2,3) by (rule fold_monthStep_inv [where P = P and I = I])
  from Cons.prems(1)
  have rest: "\<forall>y\<in>set ys. \<forall>lv k m. I lv \<longrightarrow>
      I (fst (fold (airlineStep rnd y m) catalog (lv, [''year'' \<mapsto> real y + (real m - 1) / 12], k))) \<and>
      P (fst (snd (fold (airlineStep rnd y m) catalog (lv, [''year'' \<mapsto> real y + (real m - 1) / 12], k))))"
    using list.set_intros(2) [of _ ys y] by blast
  from a have a1: "I (fst (yearStep rnd catalog y S))"
    and a2: "\<forall>p\<in>set (fst (snd (yearStep rnd catalog y S))). P p" by blast+
  from Cons.IH [OF rest a1 a2] show ?case by simp
qed

text \<open>The matrix grows by one data point a month, at its end.\<close>

lemma length_fold_monthStep:
  "length (fst (snd (fold (monthStep rnd catalog y) ms S))) = length (fst (snd S)) + length ms"
  by (induction ms arbitrary: S) (simp_all add: data_monthStep)

lemma length_yearStep:
  "length (fst (snd (yearStep rnd catalog y S))) = length (fst (snd S)) + 12"
  by (simp add: yearStep_def length_fold_monthStep months_def)

lemma length_fold_yearStep:
  "length (fst (snd (fold (yearStep rnd catalog) ys S))) = length (fst (snd S)) + 12 * length ys"
  by (induction ys arbitrary: S) (simp_all add: length_yearStep)

lemma length_generateData: "length (generateData rnd catalog) = 180"
  by (simp add: generateData_startState length_fold_yearStep data_startState years_def)

lemma nth_fold_monthStep:
  "t < length (fst (snd S)) \<Longrightarrow> fst (snd (fold (monthStep rnd catalog y) ms S)) ! t = fst (snd S) ! t"
proof (induction ms arbitrary: S)
  case Nil
  then show ?case by simp
next
  case (Cons m ms)
  from Cons.prems have "t < length (fst (snd (monthStep rnd catalog y m S)))"
    by (simp add: data_monthStep)
  from Cons.IH [OF this] Cons.prems show ?case by (simp add: data_monthStep nth_append)
qed

lemma nth_fold_yearStep:
  "t < length (fst (snd S)) \<Longrightarrow> fst (snd (fold (yearStep rnd catalog) ys S)) ! t = fst (snd S) ! t"
proof (induction ys arbitrary: S)
  case Nil
  then show ?case by simp
next
  case (Cons y ys)
  from Cons.prems have "t < length (fst (snd (yearStep rnd catalog y S)))"
    by (simp add: length_yearStep)
  from Cons.IH [OF this] Cons.prems show ?case by (simp add: yearStep_def nth_fold_monthStep)
qed

lemma nth_generateData_prefix:
  assumes "years = ys1 @ ys2" "t < 12 * length ys1"
  shows "generateData rnd catalog ! t = fst (snd (fold (yearStep rnd catalog) ys1 (startState rnd catalog))) ! t"
  unfolding generateData_startState assms(1) fold_append comp_def
  using assms(2) by (simp add: nth_fold_yearStep length_fold_yearStep data_startState)

section \<open>Stored last values stay positive\<close>

lemma stored_ge_mono: "stored_ge b C lv \<Longrightarrow> b' \<le> b \<Longrightarrow> stored_ge b' C lv"
  by (fastforce simp: stored_ge_def)

lemma stored_ge_fold_airlineStep:
  "stored_ge 100 C (fst S) \<Longrightarrow> stored_ge 100 C (fst (fold (airlineStep rnd y m) xs S))"
proof (induction xs arbitrary: S)
  case Nil
  then show ?case by simp
next
  case (Cons x xs)
  obtain lv dp k where S: "S = (lv, dp, k)" by (cases S)
  from Cons.prems have "stored_ge 100 C (fst (airlineStep rnd y m x S))"
    unfolding S by (simp add: airlineStep_eq stored_ge_def applyTrends_ge_100)
  then show ?case by (simp add: Cons.IH)
qed

lemma stored_ge_fold_monthStep:
  "stored_ge 100 C (fst S) \<Longrightarrow> stored_ge 100 C (fst (fold (monthStep rnd catalog y) ms S))"
proof (induction ms arbitrary: S)
  case Nil
  then show ?case by simp
next
  case (Cons m ms)
  from Cons.prems have "stored_ge 100 C (fst (monthStep rnd catalog y m S))"
    unfolding lastValues_monthStep by (simp add: stored_ge_fold_airlineStep)
  then show ?case by (simp add: Cons.IH)
qed

lemma stored_ge_fold_yearStep:
  "stored_ge 100 C (fst S) \<Longrightarrow> stored_ge 100 C (fst (fold (yearStep rnd catalog) ys S))"
proof (induction ys arbitrary: S)
  case Nil
  then show ?case by simp
next
  case (Cons y ys)
  from Cons.prems have "stored_ge 100 C (fst (yearStep rnd catalog y S))"
    unfolding yearStep_def by (rule stored_ge_fold_monthStep)
  then show ?case by (simp add: Cons.IH)
qed

lemma stored_ge_fold_initLastValue:
  "valid_random rnd \<Longrightarrow> stored_ge 1000 C (fst S) \<Longrightarrow>
     stored_ge 1000 (C \<union> code ` set xs) (fst (fold (initLastValue rnd) xs S))"
proof (induction xs arbitrary: S C)
  case Nil
  then show ?case by simp
next
  case (Cons x xs)
  obtain lv k where S: "S = (lv, k)" by (cases S)
  from Cons.prems(1) have r: "0 \<le> rnd k" by (simp add: valid_random_def)
  from Cons.prems(2) r have "stored_ge 1000 (insert (code x) C) (fst (initLastValue rnd x S))"
    unfolding S by (auto simp: initLastValue_eq stored_ge_def)
  from Cons.IH [OF Cons.prems(1) this] show ?case by simp
qed

lemma initLastValues_defined:
  "valid_random rnd \<Longrightarrow> stored_ge 1000 (code ` set catalog) (fst (initLastValues rnd catalog))"
  using stored_ge_fold_initLastValue [of rnd "{}" "(Map.empty, 0)" catalog]
  by (simp add: initLastValues_def stored_ge_def)

lemma stored_ge_startState:
  "valid_random rnd \<Longrightarrow> stored_ge 100 (code ` set catalog) (fst (startState rnd catalog))"
  using initLastValues_defined [of rnd catalog]
  by (simp add: startState_def split_beta stored_ge_mono)

lemma stored_ge_monthLoopState:
  "valid_random rnd \<Longrightarrow> stored_ge 100 (code ` set catalog) (fst (monthLoopState rnd catalog ys year ms))"
  unfolding monthLoopState_def
  by (intro stored_ge_fold_monthStep stored_ge_fold_yearStep stored_ge_startState)

lemma stored_ge_airlineLoopState:
  "valid_random rnd \<Longrightarrow>
     stored_ge 100 (code ` set catalog) (fst (airlineLoopState rnd catalog ys year ms month before))"
  unfolding airlineLoopState_def split_beta
  by (rule stored_ge_fold_airlineStep) (simp add: stored_ge_monthLoopState)

section \<open>Concrete catalogs\<close>

lemma generateAirlines_eq:
  "generateAirlines =
     [\<lparr>code = ''LX'', name = ''Airline LX'', color = ''#1f77b4'', group = operating\<rparr>,
      \<lparr>code = ''BA'', name = ''Airline BA'', color = ''#2ca02c'', group = operating\<rparr>,
      \<lparr>code = ''AF'', name = ''Airline AF'', color = ''#ff7f0e'', group = operating\<rparr>,
      \<lparr>code = ''LH'', name = ''Airline LH'', color = ''#d62728'', group = operating\<rparr>,
      \<lparr>code = ''KL'', name = ''Airline KL'', color = ''#9467bd'', group = operating\<rparr>,
      \<lparr>code = ''IB'', name = ''Airline IB'', color = ''#8c564b'', group = operating\<rparr>,
      \<lparr>code = ''CX'', name = ''Airline CX'', color = ''#aec7e8'', group = discontinued\<rparr>,
      \<lparr>code = ''LZ'', name = ''Airline LZ'', color = ''#98df8a'', group = discontinued\<rparr>,
      \<lparr>code = ''C3'', name = ''Airline C3'', color = ''#ffbb78'', group = discontinued\<rparr>,
      \<lparr>code = ''UL'', name = ''Airline UL'', color = ''#ff9896'', group = discontinued\<rparr>,
      \<lparr>code = ''AA'', name = ''Airline AA'', color = ''#c5b0d5'', group = discontinued\<rparr>,
      \<lparr>code = ''DL'', name = ''Airline DL'', color = ''#c49c94'', group = discontinued\<rparr>]"
  by (simp add: generateAirlines_def mkAirlines_def operatingColors_def discontinuedColors_def upt_rec)

lemma distinct_generateAirlines: "distinct (map code generateAirlines)"
  by (simp add: generateAirlines_eq)

lemma airlineLX_generateAirlines: "airlineLX \<in> set generateAirlines"
  by (simp add: generateAirlines_eq airlineLX_def)

lemma airlineCX_generateAirlines: "airlineCX \<in> set generateAirlines"
  by (simp add: generateAirlines_eq airlineCX_def)

lemma nonempty_codes_generateAirlines: "[] \<notin> code ` set generateAirlines"
  by (simp add: generateAirlines_eq)

lemma distinct_testCatalog: "distinct (map code testCatalog)"
  by (simp add: testCatalog_def mkAirlines_def)

lemma airlineCX_testCatalog: "airlineCX \<in> set testCatalog"
  by (simp add: testCatalog_def mkAirlines_def discontinuedColors_def airlineCX_def)

lemma airlineLX_simps: "code airlineLX = ''LX''" "group airlineLX = operating"
  by (simp_all add: airlineLX_def)

lemma airlineCX_simps: "code airlineCX = ''CX''" "group airlineCX = discontinued"
  by (simp_all add: airlineCX_def)

section \<open>The first month of one series\<close>

lemma first_month_nth:
  fixes rnd :: random and y m :: nat
  assumes "distinct (map code catalog)" "i < length catalog"
  defines "v0 \<equiv> (if group (catalog ! i) = operating then rnd i * 2000 + 2000 else rnd i * 1500 + 1000)"
  defines "v1 \<equiv> applyTrends (group (catalog ! i)) y m (perturbed v0 (rnd (length catalog + i)))"
  shows "fst (startState rnd catalog) (code (catalog ! i)) = Some v0"
    and "fst (monthStep rnd catalog y m (startState rnd catalog)) (code (catalog ! i)) = Some v1"
    and "last (fst (snd (monthStep rnd catalog y m (startState rnd catalog)))) (code (catalog ! i)) =
           Some (real_of_int (Math_round v1))"
proof -
  obtain lv k where init: "initLastValues rnd catalog = (lv, k)" by (cases "initLastValues rnd catalog")
  from calls_fold_initLastValue [of rnd catalog Map.empty 0] init
  have k: "k = length catalog" by (simp add: initLastValues_def)
  from fold_initLastValue_nth [OF assms(1,2), of rnd Map.empty 0] init
  have lv: "lv (code (catalog ! i)) = Some v0" by (simp add: initLastValues_def v0_def)
  show "fst (startState rnd catalog) (code (catalog ! i)) = Some v0"
    using lv by (simp add: startState_def init)
  from fold_airlineStep_nth [OF assms(1,2), of rnd y m lv "[''year'' \<mapsto> real y + (real m - 1) / 12]" k]
  show "fst (monthStep rnd catalog y m (startState rnd catalog)) (code (catalog ! i)) = Some v1"
    and "last (fst (snd (monthStep rnd catalog y m (startState rnd catalog)))) (code (catalog ! i)) =
           Some (real_of_int (Math_round v1))"
    by (simp_all add: startState_def init monthStep_def Let_def split_beta lv k v1_def)
qed

section \<open>A source that always returns one half\<close>

lemma applyTrends_early:
  "y \<le> 2015 \<Longrightarrow> applyTrends g y m (initialValue g) = initialValue g"
  by (cases g) (simp_all add: applyTrends_def initialValue_def Let_def)

lemma Math_round_initialValue:
  "real_of_int (Math_round (initialValue g)) = initialValue g"
  by (cases g) (simp_all add: Math_round_def initialValue_def)

lemma initialValue_eq: "initialValue g = (if g = operating then 3000 else 1750)"
  by (simp add: initialValue_def)

lemma stored_initial_startState:
  assumes half: "\<And>k. rnd k = 1 / 2" and d: "distinct (map code catalog)"
  shows "stored_initial catalog (fst (startState rnd catalog))"
  unfolding stored_initial_def
proof
  fix a assume "a \<in> set catalog"
  then obtain i where i: "i < length catalog" "catalog ! i = a" by (auto simp: in_set_conv_nth)
  from first_month_nth(1) [OF d i(1), of rnd] i(2)
  show "fst (startState rnd catalog) (code a) = Some (initialValue (group a))"
    by (simp add: half initialValue_def)
qed

lemma airlineStep_half_early:
  assumes "rnd k = 1 / 2" "stored_initial catalog lv" "x \<in> set catalog" "y \<le> 2015"
  shows "airlineStep rnd y m x (lv, dp, k) = (lv, dp(code x \<mapsto> initialValue (group x)), Suc k)"
proof -
  from assms(2,3) have lv: "lv (code x) = Some (initialValue (group x))"
    by (simp add: stored_initial_def)
  then have triv: "lv(code x \<mapsto> initialValue (group x)) = lv" by (rule map_upd_triv)
  have p: "perturbed (initialValue (group x)) (rnd k) = initialValue (group x)"
    unfolding assms(1) by (rule perturbed_half)
  from lv triv assms(4) show ?thesis
    by (simp add: airlineStep_eq p applyTrends_early Math_round_initialValue)
qed

lemma fold_airlineStep_half_early:
  assumes half: "\<And>k. rnd k = 1 / 2" and lv: "stored_initial catalog lv" and y: "y \<le> 2015"
  shows "set xs \<subseteq> set catalog \<Longrightarrow> stored_initial seen dp \<Longrightarrow> set seen \<subseteq> set catalog \<Longrightarrow>
     fst (fold (airlineStep rnd y m) xs (lv, dp, k)) = lv \<and>
     stored_initial (seen @ xs) (fst (snd (fold (airlineStep rnd y m) xs (lv, dp, k))))"
proof (induction xs arbitrary: dp k seen)
  case Nil
  then show ?case by simp
next
  case (Cons x xs)
  from Cons.prems(1) have x: "x \<in> set catalog" and xs: "set xs \<subseteq> set catalog" by simp_all
  have "stored_initial (seen @ [x]) (dp(code x \<mapsto> initialValue (group x)))"
    unfolding stored_initial_def
  proof
    fix a assume a: "a \<in> set (seen @ [x])"
    show "(dp(code x \<mapsto> initialValue (group x))) (code a) = Some (initialValue (group a))"
    proof (cases "code a = code x")
      case True
      from a Cons.prems(3) x have "a \<in> set catalog" by auto
      with lv x True have "initialValue (group a) = initialValue (group x)"
        by (simp add: stored_initial_def) (metis option.inject)
      with True show ?thesis by simp
    next
      case False
      with a Cons.prems(2) show ?thesis by (auto simp: stored_initial_def)
    qed
  qed
  moreover from Cons.prems(3) x have "set (seen @ [x]) \<subseteq> set catalog" by simp
  ultimately have "fst (fold (airlineStep rnd y m) xs (lv, dp(code x \<mapsto> initialValue (group x)), Suc k)) = lv \<and>
     stored_initial ((seen @ [x]) @ xs)
       (fst (snd (fold (airlineStep rnd y m) xs (lv, dp(code x \<mapsto> initialValue (group x)), Suc k))))"
    using xs by (intro Cons.IH)
  then show ?case by (simp add: airlineStep_half_early [OF half lv x y])
qed

lemma month_half_early:
  assumes "\<And>k. rnd k = 1 / 2" "stored_initial catalog lv" "y \<le> 2015"
  shows "stored_initial catalog (fst (fold (airlineStep rnd y m) catalog (lv, dp, k))) \<and>
         stored_initial catalog (fst (snd (fold (airlineStep rnd y m) catalog (lv, dp, k))))"
  using fold_airlineStep_half_early [OF assms, where xs = catalog and seen = "[]" and dp = dp and k = k and m = m]
    assms(2)
  by (simp add: stored_initial_def)

lemma early_years_half:
  assumes half: "\<And>k. rnd k = 1 / 2" and d: "distinct (map code catalog)" and ys: "\<forall>y\<in>set ys. y \<le> 2015"
  shows "stored_initial catalog (fst (fold (yearStep rnd catalog) ys (startState rnd catalog))) \<and>
     (\<forall>p\<in>set (fst (snd (fold (yearStep rnd catalog) ys (startState rnd catalog)))).
        stored_initial catalog p)"
proof (rule fold_yearStep_inv [where I = "stored_initial catalog" and P = "stored_initial catalog"])
  show "stored_initial catalog (fst (startState rnd catalog))"
    using half d by (rule stored_initial_startState)
  show "\<forall>p\<in>set (fst (snd (startState rnd catalog))). stored_initial catalog p"
    by (simp add: data_startState)
  show "\<forall>y\<in>set ys. \<forall>lv k m. stored_initial catalog lv \<longrightarrow>
      stored_initial catalog (fst (fold (airlineStep rnd y m) catalog (lv, [''year'' \<mapsto> real y + (real m - 1) / 12], k))) \<and>
      stored_initial catalog (fst (snd (fold (airlineStep rnd y m) catalog (lv, [''year'' \<mapsto> real y + (real m - 1) / 12], k))))"
  proof (intro ballI allI impI)
    fix y lv k m
    assume "y \<in> set ys" and lv: "stored_initial catalog lv"
    with ys have "y \<le> 2015" by blast
    with half lv
    show "stored_initial catalog (fst (fold (airlineStep rnd y m) catalog (lv, [''year'' \<mapsto> real y + (real m - 1) / 12], k))) \<and>
      stored_initial catalog (fst (snd (fold (airlineStep rnd y m) catalog (lv, [''year'' \<mapsto> real y + (real m - 1) / 12], k))))"
      by (rule month_half_early [where rnd = rnd])
  qed
qed

lemma generateData_half_early:
  assumes half: "\<And>k. rnd k = 1 / 2" and "distinct (map code catalog)" "airline \<in> set catalog" "t < 72"
  shows "(generateData rnd catalog ! t) (code airline) = Some (initialValue (group airline))"
proof -
  define S where "S = fold (yearStep rnd catalog) [2010, 2011, 2012, 2013, 2014, 2015] (startState rnd catalog)"
  have split: "years = [2010, 2011, 2012, 2013, 2014, 2015] @ [2016, 2017, 2018, 2019, 2020, 2021, 2022, 2023, 2024]"
    by (simp add: years_eq)
  from assms(4) have t: "t < 12 * length [2010, 2011, 2012, 2013, 2014, 2015 :: nat]" by simp
  have nth: "generateData rnd catalog ! t = fst (snd S) ! t"
    unfolding S_def using split t by (rule nth_generateData_prefix)
  have len: "length (fst (snd S)) = 72"
    unfolding S_def by (simp only: length_fold_yearStep data_startState) simp
  have "\<forall>p\<in>set (fst (snd S)). stored_initial catalog p"
    unfolding S_def using early_years_half [OF half assms(2), of "[2010, 2011, 2012, 2013, 2014, 2015]"] by simp
  with nth len assms(4) have "stored_initial catalog (generateData rnd catalog ! t)"
    by (metis nth_mem)
  with assms(3) show ?thesis by (simp add: stored_initial_def)
qed

text \<open>January 2016 is the data point of index 72.\<close>

lemma generateData_unfold_2016:
  "generateData rnd catalog =
     fst (snd (fold (yearStep rnd catalog) [2017, 2018, 2019, 2020, 2021, 2022, 2023, 2024]
       (fold (monthStep rnd catalog 2016) [2, 3, 4, 5, 6, 7, 8, 9, 10, 11, 12]
         (monthStep rnd catalog 2016 1
           (fold (yearStep rnd catalog) [2010, 2011, 2012, 2013, 2014, 2015] (startState rnd catalog))))))"
proof -
  have y: "years = [2010, 2011, 2012, 2013, 2014, 2015] @ [2016] @ [2017, 2018, 2019, 2020, 2021, 2022, 2023, 2024]"
    by (simp add: years_eq)
  have m: "months = [1] @ [2, 3, 4, 5, 6, 7, 8, 9, 10, 11, 12]"
    by (simp add: months_eq)
  have "yearStep rnd catalog 2016 S =
      fold (monthStep rnd catalog 2016) [2, 3, 4, 5, 6, 7, 8, 9, 10, 11, 12] (monthStep rnd catalog 2016 1 S)" for S
    unfolding yearStep_def m fold_append comp_def by (simp only: fold_simps id_apply comp_def)
  then show ?thesis
    unfolding generateData_startState y fold_append comp_def by (simp only: fold_simps id_apply comp_def)
qed

lemma generateData_nth_72:
  "generateData rnd catalog ! 72 =
     fst (snd (fold (airlineStep rnd 2016 1) catalog
       (fst (fold (yearStep rnd catalog) [2010, 2011, 2012, 2013, 2014, 2015] (startState rnd catalog)),
        [''year'' \<mapsto> real 2016 + (real 1 - 1) / 12],
        snd (snd (fold (yearStep rnd catalog) [2010, 2011, 2012, 2013, 2014, 2015] (startState rnd catalog))))))"
proof -
  define S where "S = fold (yearStep rnd catalog) [2010, 2011, 2012, 2013, 2014, 2015] (startState rnd catalog)"
  define M where "M = monthStep rnd catalog 2016 1 S"
  define N where "N = fold (monthStep rnd catalog 2016) [2, 3, 4, 5, 6, 7, 8, 9, 10, 11, 12] M"
  have len: "length (fst (snd S)) = 72"
    unfolding S_def by (simp only: length_fold_yearStep data_startState) simp
  have lenM: "length (fst (snd M)) = 73"
    unfolding M_def by (simp only: data_monthStep length_append len) simp
  have "length (fst (snd N)) = length (fst (snd M)) + length [2, 3, 4, 5, 6, 7, 8, 9, 10, 11, 12 :: nat]"
    unfolding N_def by (rule length_fold_monthStep)
  then have lenN: "72 < length (fst (snd N))" using lenM by simp
  have "generateData rnd catalog = fst (snd (fold (yearStep rnd catalog) [2017, 2018, 2019, 2020, 2021, 2022, 2023, 2024] N))"
    unfolding N_def M_def S_def by (rule generateData_unfold_2016)
  then have "generateData rnd catalog ! 72 =
      fst (snd (fold (yearStep rnd catalog) [2017, 2018, 2019, 2020, 2021, 2022, 2023, 2024] N)) ! 72"
    by (rule arg_cong)
  also have "\<dots> = fst (snd N) ! 72"
    using lenN by (rule nth_fold_yearStep)
  also have "\<dots> = fst (snd M) ! 72"
    unfolding N_def by (rule nth_fold_monthStep) (simp add: lenM)
  also have "\<dots> = (fst (snd S) @ [fst (snd (fold (airlineStep rnd 2016 1) catalog
        (fst S, [''year'' \<mapsto> real 2016 + (real 1 - 1) / 12], snd (snd S))))]) ! length (fst (snd S))"
    unfolding M_def by (simp only: data_monthStep len)
  also have "\<dots> = fst (snd (fold (airlineStep rnd 2016 1) catalog
        (fst S, [''year'' \<mapsto> real 2016 + (real 1 - 1) / 12], snd (snd S))))"
    by (rule nth_append_length)
  finally show ?thesis unfolding S_def .
qed

lemma generateData_half_2016:
  assumes half: "\<And>k. rnd k = 1 / 2" and d: "distinct (map code catalog)" and a: "airline \<in> set catalog"
  shows "(generateData rnd catalog ! 72) (code airline) =
           Some (real_of_int (Math_round (applyTrends (group airline) 2016 1 (initialValue (group airline)))))"
proof -
  define S where "S = fold (yearStep rnd catalog) [2010, 2011, 2012, 2013, 2014, 2015] (startState rnd catalog)"
  have "stored_initial catalog (fst S)"
    unfolding S_def using early_years_half [OF half d, of "[2010, 2011, 2012, 2013, 2014, 2015]"] by simp
  with a have lv: "the (fst S (code airline)) = initialValue (group airline)"
    by (simp add: stored_initial_def)
  from a obtain i where i: "i < length catalog" "catalog ! i = airline" by (auto simp: in_set_conv_nth)
  have "(generateData rnd catalog ! 72) (code airline) =
      fst (snd (fold (airlineStep rnd 2016 1) catalog
        (fst S, [''year'' \<mapsto> real 2016 + (real 1 - 1) / 12], snd (snd S)))) (code airline)"
    unfolding S_def by (simp only: generateData_nth_72)
  also have "\<dots> = Some (real_of_int (Math_round (applyTrends (group airline) 2016 1
        (perturbed (the (fst S (code airline))) (rnd (snd (snd S) + i))))))"
    using fold_airlineStep_nth [OF d i(1), of rnd 2016 1 "fst S" _ "snd (snd S)"] i(2) by simp
  finally show ?thesis unfolding lv half perturbed_half .
qed

section \<open>Binary64 rounding\<close>

text \<open>
  The rounding of a significand is within one half of it; the rounding of a number
  never passes a power of two, and in the normal range its relative error is at most
  one part in \<open>2 ^ 53\<close>.
\<close>

lemma round_even_near: "\<bar>real_of_int (round_even y) - y\<bar> \<le> 1 / 2"
  unfolding round_even_def Let_def by auto

lemma round_even_nonneg: "0 \<le> y \<Longrightarrow> 0 \<le> round_even y"
  unfolding round_even_def Let_def by (auto simp: zero_le_floor) 

lemma round_even_le_int: "y \<le> real_of_int N \<Longrightarrow> round_even y \<le> N"
proof -
  assume a: "y \<le> real_of_int N"
  then have f: "\<lfloor>y\<rfloor> \<le> N" by (simp add: floor_le_iff)
  show ?thesis
  proof (cases "\<lfloor>y\<rfloor> = N")
    case True
    with a have "y - real_of_int \<lfloor>y\<rfloor> \<le> 0" by simp
    then have "y - real_of_int \<lfloor>y\<rfloor> < 1 / 2" by linarith
    with True show ?thesis by (simp add: round_even_def Let_def)
  next
    case False
    with f have "\<lfloor>y\<rfloor> + 1 \<le> N" by simp
    with f show ?thesis by (auto simp: round_even_def Let_def)
  qed
qed

lemma round_even_small: "0 \<le> y \<Longrightarrow> y \<le> 1 / 2 \<Longrightarrow> round_even y = 0"
proof -
  assume a: "0 \<le> y" "y \<le> 1 / 2"
  then have "\<lfloor>y\<rfloor> = 0" by (simp add: floor_eq_iff)
  with a show ?thesis by (simp add: round_even_def Let_def)
qed

lemma normalise_value:
  "fst (normalise n m e) * 2 powi snd (normalise n m e) = m * 2 powi e"
proof (induction n arbitrary: m e)
  case 0
  show ?case by simp
next
  case (Suc n)
  have a: "m / 2 * 2 powi (e + 1) = m * 2 powi e" by (simp add: power_int_add)
  have b: "m * 2 * 2 powi (e - 1) = m * 2 powi e" by (simp add: power_int_diff)
  consider "2 ^ 53 \<le> m" | "\<not> 2 ^ 53 \<le> m" "m < 2 ^ 52 \<and> - 1074 < e"
    | "\<not> 2 ^ 53 \<le> m" "\<not> (m < 2 ^ 52 \<and> - 1074 < e)" by blast
  then show ?case
  proof cases
    case 1
    then have "normalise (Suc n) m e = normalise n (m / 2) (e + 1)" by simp
    then show ?thesis by (simp only: Suc.IH a)
  next
    case 2
    then have "normalise (Suc n) m e = normalise n (m * 2) (e - 1)" by simp
    then show ?thesis by (simp only: Suc.IH b)
  next
    case 3
    then have "normalise (Suc n) m e = (m, e)" by auto
    then show ?thesis by simp
  qed
qed

lemma normalise_nonneg: "0 \<le> m \<Longrightarrow> 0 \<le> fst (normalise n m e)"
  by (induction n arbitrary: m e) simp_all

lemma normalise_lower:
  "0 < m \<Longrightarrow> m < 2 ^ 53 \<Longrightarrow> 2 ^ 52 \<le> m * 2 ^ n \<Longrightarrow> int n \<le> e + 1074 \<Longrightarrow>
     2 ^ 52 \<le> fst (normalise n m e)"
proof (induction n arbitrary: m e)
  case 0
  then show ?case by simp
next
  case (Suc n)
  show ?case
  proof (cases "m < 2 ^ 52")
    case True
    from Suc.prems(4) have e: "- 1074 < e" by simp
    from True have "m * 2 < 2 ^ 53" by simp
    moreover from Suc.prems(3) have "2 ^ 52 \<le> m * 2 * 2 ^ n" by (simp add: mult.assoc)
    moreover from Suc.prems(4) have "int n \<le> (e - 1) + 1074" by simp
    moreover from Suc.prems(1) have "0 < m * 2" by simp
    ultimately have "2 ^ 52 \<le> fst (normalise n (m * 2) (e - 1))" by (intro Suc.IH)
    with True e Suc.prems(2) show ?thesis by simp
  next
    case False
    with Suc.prems(2) show ?thesis by simp
  qed
qed

lemma normalise_abs:
  obtains m e where "normalise 1074 \<bar>x\<bar> 0 = (m, e)" "m * 2 powi e = \<bar>x\<bar>" "0 \<le> m"
proof -
  obtain m e where me: "normalise 1074 \<bar>x\<bar> 0 = (m, e)" by (cases "normalise 1074 \<bar>x\<bar> 0")
  from normalise_value [of 1074 "\<bar>x\<bar>" 0] me have "m * 2 powi e = \<bar>x\<bar>" by simp
  moreover from normalise_nonneg [of "\<bar>x\<bar>" 1074 0] me have "0 \<le> m" by simp
  ultimately show ?thesis using me that by blast
qed

lemma fl_zero: "fl 0 = 0"
  by (simp add: fl_def split_beta)

lemma fl_minus: "fl (- x) = - fl x"
  by (simp add: fl_def split_beta sgn_minus)

lemma fl_nonneg: "0 \<le> x \<Longrightarrow> 0 \<le> fl x"
proof -
  assume x: "0 \<le> x"
  obtain m e where me: "normalise 1074 \<bar>x\<bar> 0 = (m, e)" "0 \<le> m"
    using normalise_abs [of x] by blast
  from me(2) have "0 \<le> real_of_int (round_even m)" by (simp add: round_even_nonneg)
  moreover from x have "0 \<le> sgn x" by (simp add: sgn_real_def)
  ultimately show ?thesis unfolding fl_def me(1) by simp
qed

lemma abs_fl: "\<bar>fl x\<bar> = fl \<bar>x\<bar>"
proof (cases "0 \<le> x")
  case True
  then show ?thesis by (simp add: fl_nonneg)
next
  case False
  then have "0 \<le> - x" by simp
  then have "0 \<le> fl (- x)" by (rule fl_nonneg)
  with False show ?thesis by (simp add: fl_minus abs_if)
qed

lemma fl_pos_eq:
  assumes "0 < x" "normalise 1074 x 0 = (m, e)"
  shows "fl x = real_of_int (round_even m) * 2 powi e"
  using assms by (simp add: fl_def)

lemma fl_le_power:
  assumes "\<bar>x\<bar> \<le> 2 powi k"
  shows "\<bar>fl x\<bar> \<le> 2 powi k"
proof (cases "x = 0")
  case True
  then show ?thesis by (simp add: fl_zero)
next
  case False
  then have pos: "0 < \<bar>x\<bar>" by simp
  obtain m e where me: "normalise 1074 \<bar>x\<bar> 0 = (m, e)" "m * 2 powi e = \<bar>x\<bar>" "0 \<le> m"
    using normalise_abs [of x] by blast
  have p: "(0::real) < 2 powi e" by simp
  from me(2) assms have "m * 2 powi e \<le> 2 powi k" by simp
  then have "m \<le> 2 powi k / 2 powi e" using p by (simp add: pos_le_divide_eq)
  then have m: "m \<le> 2 powi (k - e)" by (simp add: power_int_diff)
  have r: "real_of_int (round_even m) \<le> 2 powi (k - e)"
  proof (cases "0 \<le> k - e")
    case True
    then have eq: "(2::real) powi (k - e) = real_of_int (2 ^ nat (k - e))"
      by (simp add: power_int_def)
    with m have "round_even m \<le> 2 ^ nat (k - e)" by (simp only: round_even_le_int)
    then have "real_of_int (round_even m) \<le> real_of_int (2 ^ nat (k - e))" by (simp only: of_int_le_iff)
    then show ?thesis by (simp only: eq)
  next
    case False
    then have "k - e \<le> - 1" by simp
    then have "(2::real) powi (k - e) \<le> 2 powi (- 1)" by (intro power_int_increasing) simp_all
    with m have "m \<le> 1 / 2" by (simp add: power_int_minus)
    with me(3) have "round_even m = 0" by (rule round_even_small)
    then show ?thesis by simp
  qed
  have "\<bar>fl x\<bar> = fl \<bar>x\<bar>" by (rule abs_fl)
  also have "\<dots> = real_of_int (round_even m) * 2 powi e" using pos me(1) by (rule fl_pos_eq)
  also have "\<dots> \<le> 2 powi (k - e) * 2 powi e" using r p by (simp add: mult_right_mono)
  also have "\<dots> = 2 powi k" by (simp add: power_int_add [symmetric])
  finally show ?thesis .
qed

lemma fl_error:
  assumes lo: "1 / 2 ^ 1022 \<le> \<bar>x\<bar>" and hi: "\<bar>x\<bar> < 2 ^ 53"
  shows "\<bar>fl x - x\<bar> \<le> \<bar>x\<bar> / 2 ^ 53"
proof -
  from lo have pos: "0 < \<bar>x\<bar>" by (smt (verit) divide_pos_pos zero_less_power)
  obtain m e where me: "normalise 1074 \<bar>x\<bar> 0 = (m, e)" "m * 2 powi e = \<bar>x\<bar>" "0 \<le> m"
    using normalise_abs [of x] by blast
  have p: "(0::real) < 2 powi e" by simp
  have split: "(2::real) ^ 1074 = 2 ^ 52 * 2 ^ 1022" by (simp only: power_add [symmetric]) simp
  from lo have "1 \<le> \<bar>x\<bar> * 2 ^ 1022" by (simp add: pos_divide_le_eq)
  then have "(2::real) ^ 52 * 1 \<le> 2 ^ 52 * (\<bar>x\<bar> * 2 ^ 1022)" by (intro mult_left_mono) simp_all
  then have "2 ^ 52 \<le> \<bar>x\<bar> * 2 ^ 1074" by (simp only: split) (simp add: mult_ac)
  with pos hi have "2 ^ 52 \<le> fst (normalise 1074 \<bar>x\<bar> 0)" by (intro normalise_lower) simp_all
  with me(1) have m52: "2 ^ 52 \<le> m" by simp
  have ax: "\<bar>fl x - x\<bar> = abs (fl (abs x) - abs x)"
  proof (cases "0 \<le> x")
    case True
    then show ?thesis by simp
  next
    case False
    then have "\<bar>x\<bar> = - x" by simp
    then show ?thesis by (simp add: fl_minus)
  qed
  have "fl \<bar>x\<bar> = real_of_int (round_even m) * 2 powi e" using pos me(1) by (rule fl_pos_eq)
  then have "fl (abs x) - abs x = (real_of_int (round_even m) - m) * 2 powi e"
    using me(2) by (simp add: algebra_simps)
  then have "abs (fl (abs x) - abs x) = \<bar>real_of_int (round_even m) - m\<bar> * 2 powi e"
    by (simp add: abs_mult)
  also have "\<dots> \<le> 1 / 2 * 2 powi e"
    using round_even_near [of m] p by (intro mult_right_mono) simp_all
  also have "\<dots> \<le> m / 2 ^ 53 * 2 powi e"
  proof -
    from m52 have "(1::real) / 2 \<le> m / 2 ^ 53" by simp
    then show ?thesis using p by (intro mult_right_mono) simp_all
  qed
  also have "\<dots> = \<bar>x\<bar> / 2 ^ 53" using me(2) by simp
  finally show ?thesis by (simp only: ax)
qed

lemma normalise_scale:
  "0 < m \<Longrightarrow> 2 ^ 52 \<le> m * 2 ^ j \<Longrightarrow> m * 2 ^ j < 2 ^ 53 \<Longrightarrow> j \<le> n \<Longrightarrow> int j \<le> e + 1074 \<Longrightarrow>
     normalise n m e = (m * 2 ^ j, e - int j)"
proof (induction j arbitrary: n m e)
  case 0
  then show ?case by (cases n) simp_all
next
  case (Suc j)
  from Suc.prems(4) obtain n' where n: "n = Suc n'" "j \<le> n'" by (cases n) simp_all
  have "(1::real) \<le> 2 ^ j" by simp
  then have "m * 2 * 1 \<le> m * 2 * 2 ^ j" using Suc.prems(1) by (intro mult_left_mono) simp_all
  with Suc.prems(3) have m: "m < 2 ^ 52" by simp
  from Suc.prems(5) have e: "- 1074 < e" "int j \<le> (e - 1) + 1074" by simp_all
  from Suc.prems have "normalise n' (m * 2) (e - 1) = (m * 2 * 2 ^ j, (e - 1) - int j)"
    using n(2) e(2) by (intro Suc.IH) (simp_all add: mult.assoc)
  with m e(1) show ?case by (simp add: n(1) mult.assoc)
qed

lemma fl_eval:
  assumes "0 < x" "2 ^ 52 \<le> x * 2 ^ j" "x * 2 ^ j < 2 ^ 53" "j \<le> 1074"
  shows "fl x = real_of_int (round_even (x * 2 ^ j)) / 2 ^ j"
proof -
  from assms have "normalise 1074 x 0 = (x * 2 ^ j, 0 - int j)"
    by (intro normalise_scale) simp_all
  with assms(1) have "fl x = real_of_int (round_even (x * 2 ^ j)) * 2 powi (0 - int j)"
    by (rule fl_pos_eq)
  then show ?thesis by (simp add: power_int_minus field_simps)
qed

lemma fl_008: "fl 0.08 = 5764607523034235 / 2 ^ 56"
  using fl_eval [of "0.08" 56] by (simp add: round_even_def)

lemma perturbed64_bound:
  assumes r: "0 \<le> r" "r < 1" and L: "100 \<le> L" "L \<le> 5500"
  shows "\<bar>perturbed64 L r - L\<bar> \<le> 0.08 * L * (1 + 1 / 2 ^ 49)"
proof -
  define u :: real where "u = 1 / 2 ^ 53"
  define c :: real where "c = 5764607523034235 / 2 ^ 56"
  define M where "M = fl (L * c)"
  define t where "t = fl (r - 0.5)"
  define t2 where "t2 = fl (t * 2)"
  define v where "v = fl (t2 * M)"
  define N where "N = fl (L + v)"
  have N: "perturbed64 L r = N"
    unfolding perturbed64_def Let_def fl_008 N_def v_def t2_def t_def M_def c_def by simp
  have u0: "0 \<le> u" "u \<le> 1 / 2 ^ 53" by (simp_all add: u_def)
  have c0: "0 < c" "c * (1 + u) \<le> 9 / 100" "8 / 100 \<le> c" by (simp_all add: c_def u_def)
  have L0: "0 \<le> L" using L by simp
  \<comment> \<open>maxVariation\<close>
  have Lc: "8 \<le> L * c" "L * c \<le> 495"
  proof -
    have "100 * c \<le> L * c" using L(1) c0(1) by (intro mult_right_mono) simp_all
    moreover have "8 \<le> 100 * c" by (simp add: c_def)
    ultimately show "8 \<le> L * c" by linarith
    have "L * c \<le> 5500 * c" using L(2) c0(1) by (intro mult_right_mono) simp_all
    moreover have "5500 * c \<le> 495" by (simp add: c_def)
    ultimately show "L * c \<le> 495" by linarith
  qed
  have "\<bar>fl (L * c) - L * c\<bar> \<le> \<bar>L * c\<bar> / 2 ^ 53"
    using Lc by (intro fl_error) (simp_all add: abs_if)
  then have Merr: "\<bar>M - L * c\<bar> \<le> L * c * u" using Lc(1) by (simp add: M_def u_def)
  then have M1: "M \<le> L * c * (1 + u)" by (simp add: algebra_simps abs_le_iff)
  from Merr Lc u0 have M0: "1 \<le> M"
  proof -
    have "L * c * u \<le> 495 * (1 / 2 ^ 53)" using Lc u0 by (intro mult_mono) simp_all
    with Merr Lc(1) show ?thesis by (simp add: abs_le_iff)
  qed
  have M2: "M \<le> 496"
  proof -
    have "L * c * (1 + u) \<le> 495 * (1 + 1 / 2 ^ 53)" using Lc u0 by (intro mult_mono) simp_all
    with M1 show ?thesis by simp
  qed
  \<comment> \<open>the factor\<close>
  have "\<bar>r - 0.5\<bar> \<le> 1 / 2" unfolding abs_le_iff using r by simp
  then have "\<bar>r - 0.5\<bar> \<le> 2 powi (- 1)" by (simp add: power_int_minus)
  then have "\<bar>t\<bar> \<le> 2 powi (- 1)" unfolding t_def by (rule fl_le_power)
  then have "\<bar>t * 2\<bar> \<le> 2 powi 0" by (simp add: power_int_minus abs_mult)
  then have "\<bar>t2\<bar> \<le> 2 powi 0" unfolding t2_def by (rule fl_le_power)
  then have t2: "\<bar>t2\<bar> \<le> 1" by simp
  \<comment> \<open>variation\<close>
  have w: "\<bar>t2 * M\<bar> \<le> M"
  proof -
    have "\<bar>t2\<bar> * M \<le> 1 * M" using t2 M0 by (intro mult_right_mono) simp_all
    then show ?thesis using M0 by (simp add: abs_mult)
  qed
  have v1: "\<bar>v\<bar> \<le> M * (1 + u)"
  proof (cases "1 / 2 ^ 1022 \<le> \<bar>t2 * M\<bar>")
    case True
    from w M2 have "\<bar>t2 * M\<bar> < 2 ^ 53" by simp
    with True have "\<bar>fl (t2 * M) - t2 * M\<bar> \<le> \<bar>t2 * M\<bar> / 2 ^ 53" by (rule fl_error)
    then have "\<bar>v\<bar> \<le> \<bar>t2 * M\<bar> + \<bar>t2 * M\<bar> / 2 ^ 53" unfolding v_def by linarith
    also have "\<dots> = \<bar>t2 * M\<bar> * (1 + u)" by (simp add: u_def algebra_simps)
    also have "\<dots> \<le> M * (1 + u)" using w u0 by (intro mult_right_mono) simp_all
    finally show ?thesis .
  next
    case False
    then have "\<bar>t2 * M\<bar> \<le> 2 powi (- 1022)" by (simp add: power_int_minus field_simps)
    then have "\<bar>v\<bar> \<le> 2 powi (- 1022)" unfolding v_def by (rule fl_le_power)
    also have "\<dots> \<le> 2 powi 0" by (intro power_int_increasing) simp_all
    also have "\<dots> \<le> M" using M0 by simp
    also have "\<dots> \<le> M * (1 + u)" using M0 u0 by (simp add: algebra_simps)
    finally show ?thesis .
  qed
  have B: "M * (1 + u) \<le> L * c * (1 + u) * (1 + u)" using M1 u0 by (intro mult_right_mono) simp_all
  have v2: "\<bar>v\<bar> \<le> L * c * (1 + u) * (1 + u)" using v1 B by simp
  have v3: "\<bar>v\<bar> \<le> L / 10"
  proof -
    have "c * (1 + u) * (1 + u) \<le> 1 / 10" by (simp add: c_def u_def)
    then have "L * (c * (1 + u) * (1 + u)) \<le> L * (1 / 10)" using L0 by (rule mult_left_mono)
    moreover have "L * c * (1 + u) * (1 + u) = L * (c * (1 + u) * (1 + u))" by (simp add: mult.assoc)
    ultimately show ?thesis using v2 by linarith
  qed
  \<comment> \<open>the sum\<close>
  have s: "90 \<le> L + v" "L + v \<le> 6050" using v3 L by (simp_all add: abs_le_iff)
  have "\<bar>fl (L + v) - (L + v)\<bar> \<le> \<bar>L + v\<bar> / 2 ^ 53"
    using s by (intro fl_error) (simp_all add: abs_if)
  then have Nerr: "\<bar>N - (L + v)\<bar> \<le> (L + v) * u" using s(1) by (simp add: N_def u_def)
  have "(L + v) * u \<le> (L + \<bar>v\<bar>) * u" using u0 by (intro mult_right_mono) simp_all
  with Nerr have "\<bar>N - L\<bar> \<le> (L + \<bar>v\<bar>) * u + \<bar>v\<bar>" by linarith
  also have "\<dots> = L * u + \<bar>v\<bar> * (1 + u)" by (simp add: algebra_simps)
  also have "\<dots> \<le> L * u + L * c * (1 + u) * (1 + u) * (1 + u)"
  proof -
    have "\<bar>v\<bar> * (1 + u) \<le> L * c * (1 + u) * (1 + u) * (1 + u)"
      using v2 u0 by (intro mult_right_mono) simp_all
    then show ?thesis by simp
  qed
  also have "\<dots> = L * (u + c * (1 + u) * (1 + u) * (1 + u))" by (simp add: algebra_simps)
  also have "\<dots> \<le> L * (0.08 * (1 + 1 / 2 ^ 49))"
  proof -
    have "u + c * (1 + u) * (1 + u) * (1 + u) \<le> 0.08 * (1 + 1 / 2 ^ 49)" by (simp add: c_def u_def)
    then show ?thesis using L0 by (rule mult_left_mono)
  qed
  finally show ?thesis by (simp add: N mult_ac)
qed

lemma applyTrends64_range: "100 \<le> applyTrends64 g year month x \<and> applyTrends64 g year month x \<le> 5500"
  by (cases g) (simp_all add: applyTrends64_def Let_def)

lemma fl_scaled_draw:
  assumes "0 \<le> r" "r < 1" "0 \<le> a" "a \<le> 2048"
  shows "0 \<le> fl (r * a) \<and> fl (r * a) \<le> 2048"
proof -
  have "r * a \<le> 1 * a" using assms by (intro mult_right_mono) simp_all
  with assms have ra: "0 \<le> r * a" "r * a \<le> 2048" by simp_all
  then have "\<bar>r * a\<bar> \<le> 2 powi 11" by simp
  then have "\<bar>fl (r * a)\<bar> \<le> 2 powi 11" by (rule fl_le_power)
  moreover from ra(1) have "0 \<le> fl (r * a)" by (rule fl_nonneg)
  ultimately show ?thesis by simp
qed

lemma fl_near_sum:
  assumes "1 \<le> z" "z \<le> 5000"
  shows "z - 1 \<le> fl z \<and> fl z \<le> z + 1"
proof -
  have "\<bar>fl z - z\<bar> \<le> \<bar>z\<bar> / 2 ^ 53" using assms by (intro fl_error) (simp_all add: abs_if)
  moreover have "\<bar>z\<bar> / 2 ^ 53 \<le> 1" using assms by simp
  ultimately show ?thesis by linarith
qed

lemma initialValue64_range:
  assumes "0 \<le> r" "r < 1"
  shows "100 \<le> initialValue64 g r \<and> initialValue64 g r \<le> 5500"
proof (cases g)
  case operating
  from fl_scaled_draw [OF assms, of 2000] have y: "0 \<le> fl (r * 2000)" "fl (r * 2000) \<le> 2048" by simp_all
  then have "1 \<le> fl (r * 2000) + 2000" "fl (r * 2000) + 2000 \<le> 5000" by simp_all
  from fl_near_sum [OF this] y operating show ?thesis by (simp add: initialValue64_def)
next
  case discontinued
  from fl_scaled_draw [OF assms, of 1500] have y: "0 \<le> fl (r * 1500)" "fl (r * 1500) \<le> 2048" by simp_all
  then have "1 \<le> fl (r * 1500) + 1000" "fl (r * 1500) + 1000 \<le> 5000" by simp_all
  from fl_near_sum [OF this] y discontinued show ?thesis by (simp add: initialValue64_def)
qed

lemma fl_half: "fl (1 / 2) = 1 / 2"
  using fl_eval [of "1 / 2" 53] by (simp add: round_even_def)

lemma fl_one: "fl 1 = 1"
  using fl_eval [of 1 52] by (simp add: round_even_def)

section \<open>Claims about the generator\<close>

text \<open>The loop states are those of \<open>generateData\<close>: its result, and the start of a month.\<close>

lemma generateData_monthLoopState:
  "generateData rnd catalog = fst (snd (monthLoopState rnd catalog years year []))"
  by (simp add: generateData_startState monthLoopState_def)

lemma monthStep_airlineLoopState:
  "monthStep rnd catalog year month (monthLoopState rnd catalog ys year ms) =
     (case airlineLoopState rnd catalog ys year ms month catalog of (lastValues, dataPoint, k) \<Rightarrow>
        (lastValues, fst (snd (monthLoopState rnd catalog ys year ms)) @ [dataPoint], k))"
  by (simp add: monthStep_def airlineLoopState_def Let_def split_beta)

text \<open>
  C1 (as amended). In the arithmetic of the code, for every stored last value between
  100 and 5500 and every draw in \<open>[0, 1)\<close>, the perturbed value (the value before any
  date-conditioned multiplier and before the clamp) differs from the last value by at
  most 0.08 times the last value times \<open>1 + 2 ^ -49\<close>: the bound of eight percent holds
  up to the rounding of the four operations. Every stored last value lies between 100
  and 5500: the starting values do, and so does the value that the trends and the clamp
  make of any perturbed value.
\<close>

theorem perturbed64_within_maxVariation:
  assumes "0 \<le> r" "r < 1" "100 \<le> lastValue" "lastValue \<le> 5500"
  shows "\<bar>perturbed64 lastValue r - lastValue\<bar> \<le> 0.08 * lastValue * (1 + 1 / 2 ^ 49) \<and>
         100 \<le> applyTrends64 g year month (perturbed64 lastValue r) \<and>
         applyTrends64 g year month (perturbed64 lastValue r) \<le> 5500 \<and>
         100 \<le> initialValue64 g r \<and> initialValue64 g r \<le> 5500"
  using perturbed64_bound [OF assms] applyTrends64_range [of g year month "perturbed64 lastValue r"]
    initialValue64_range [OF assms(1,2), of g]
  by blast

theorem perturbed64_within_maxVariation_witness:
  "(0::real) \<le> 1 / 2 \<and> (1 / 2 :: real) < 1 \<and> (100::real) \<le> 3000 \<and> (3000::real) \<le> 5500 \<and>
   \<bar>perturbed64 3000 (1 / 2) - 3000\<bar> \<le> 0.08 * 3000 * (1 + 1 / 2 ^ 49) \<and>
   100 \<le> initialValue64 operating (1 / 2) \<and> initialValue64 operating (1 / 2) \<le> 5500"
  using perturbed64_within_maxVariation [of "1 / 2" 3000 operating 2010 1] by simp

text \<open>
  The claim as stated fails: the bound itself is passed. The first draw
  \<open>1501199875790165 / 2 ^ 52\<close> gives the operating airline the starting value
  2666.6666666666665; with the next draw 0 the perturbed value of January 2010 is
  2453.333333333333, at a distance of 213.33333333333348, more than eight percent of the
  starting value, which is 213.33333333333331.
\<close>

theorem perturbed64_exceeds_maxVariation:
  "initialValue64 operating (1501199875790165 / 2 ^ 52) = 5864062014805333 / 2 ^ 41 \<and>
   perturbed64 (5864062014805333 / 2 ^ 41) 0 = 2697468526810453 / 2 ^ 40 \<and>
   0.08 * (5864062014805333 / 2 ^ 41) <
     \<bar>2697468526810453 / 2 ^ 40 - 5864062014805333 / 2 ^ 41 :: real\<bar>"
proof -
  have a: "fl (1501199875790165 / 2 ^ 52 * 2000) = 1466015503701333 / 2 ^ 41"
    using fl_eval [of "1501199875790165 / 2 ^ 52 * 2000" 43] by (simp add: round_even_def)
  have b: "fl (1466015503701333 / 2 ^ 41 + 2000) = 5864062014805333 / 2 ^ 41"
    using fl_eval [of "1466015503701333 / 2 ^ 41 + 2000" 41] by (simp add: round_even_def)
  have M: "fl (5864062014805333 / 2 ^ 41 * (5764607523034235 / 2 ^ 56)) = 3752999689475413 / 2 ^ 44"
    using fl_eval [of "5864062014805333 / 2 ^ 41 * (5764607523034235 / 2 ^ 56)" 45]
    by (simp add: round_even_def)
  have t: "fl (0 - 0.5) = - (1 / 2)"
    using fl_minus [of "1 / 2"] by (simp add: fl_half)
  have t2: "fl (- (1 / 2) * 2) = - 1"
    using fl_minus [of 1] by (simp add: fl_one)
  have "fl (3752999689475413 / 2 ^ 44) = 3752999689475413 / 2 ^ 44"
    using fl_eval [of "3752999689475413 / 2 ^ 44" 45] by (simp add: round_even_def)
  then have v: "fl (- 1 * (3752999689475413 / 2 ^ 44)) = - (3752999689475413 / 2 ^ 44)"
    using fl_minus [of "3752999689475413 / 2 ^ 44"] by simp
  have N: "fl (5864062014805333 / 2 ^ 41 + - (3752999689475413 / 2 ^ 44)) = 2697468526810453 / 2 ^ 40"
    using fl_eval [of "5864062014805333 / 2 ^ 41 + - (3752999689475413 / 2 ^ 44)" 41]
    by (simp add: round_even_def)
  have "initialValue64 operating (1501199875790165 / 2 ^ 52) = 5864062014805333 / 2 ^ 41"
    unfolding initialValue64_def a b by simp
  moreover have "perturbed64 (5864062014805333 / 2 ^ 41) 0 = 2697468526810453 / 2 ^ 40"
    unfolding perturbed64_def Let_def fl_008 M t t2 v N by (rule refl)
  moreover have "0.08 * (5864062014805333 / 2 ^ 41) <
      \<bar>2697468526810453 / 2 ^ 40 - 5864062014805333 / 2 ^ 41 :: real\<bar>"
    by simp
  ultimately show ?thesis by blast
qed

text \<open>
  C2. For a catalog with distinct codes, every data point of the generated matrix holds,
  for every airline of the catalog, a value inside the band of the airline's group:
  800 to 5500 for an operating airline, 100 to 3500 for a discontinued one. No
  assumption on the draws is needed. The value that one run of the loop body stores as
  the airline's next last value lies inside the same band, since the clamp is the last
  operation before the two stores.
\<close>

theorem generateData_within_band:
  assumes "distinct (map code catalog)"
    and "airline \<in> set catalog"
    and "dataPoint \<in> set (generateData rnd catalog)"
  shows "(\<exists>v. dataPoint (code airline) = Some v \<and>
            (if group airline = operating then 800 \<le> v \<and> v \<le> 5500 else 100 \<le> v \<and> v \<le> 3500)) \<and>
         (\<exists>v. fst (airlineStep rnd year month airline (lastValues, dp, k)) (code airline) = Some v \<and>
            (if group airline = operating then 800 \<le> v \<and> v \<le> 5500 else 100 \<le> v \<and> v \<le> 3500))"
proof
  have "True \<and> (\<forall>p\<in>set (fst (snd (fold (yearStep rnd catalog) years (startState rnd catalog)))).
          \<exists>v. p (code airline) = Some v \<and> in_band (group airline) v)"
  proof (rule fold_yearStep_inv [where I = "\<lambda>_. True"
        and P = "\<lambda>p. \<exists>v. p (code airline) = Some v \<and> in_band (group airline) v"])
    show "\<forall>p\<in>set (fst (snd (startState rnd catalog))).
            \<exists>v. p (code airline) = Some v \<and> in_band (group airline) v"
      by (simp add: data_startState)
    show "\<forall>y\<in>set years. \<forall>lv k m. True \<longrightarrow> True \<and>
            (\<exists>v. fst (snd (fold (airlineStep rnd y m) catalog
                 (lv, [''year'' \<mapsto> real y + (real m - 1) / 12], k))) (code airline) = Some v \<and>
              in_band (group airline) v)"
      using assms(1,2) by (intro ballI allI impI conjI TrueI fold_airlineStep_in_band)
  qed simp
  with assms(3)
  show "\<exists>v. dataPoint (code airline) = Some v \<and>
            (if group airline = operating then 800 \<le> v \<and> v \<le> 5500 else 100 \<le> v \<and> v \<le> 3500)"
    by (simp add: generateData_startState in_band_def)
  show "\<exists>v. fst (airlineStep rnd year month airline (lastValues, dp, k)) (code airline) = Some v \<and>
            (if group airline = operating then 800 \<le> v \<and> v \<le> 5500 else 100 \<le> v \<and> v \<le> 3500)"
    using in_band_applyTrends
      [of "group airline" year month "perturbed (the (lastValues (code airline))) (rnd k)"]
    by (simp add: airlineStep_eq in_band_def)
qed

theorem generateData_within_band_witness:
  "distinct (map code generateAirlines) \<and> airlineLX \<in> set generateAirlines \<and>
   generateData (constantSource (1 / 2)) generateAirlines ! 0
     \<in> set (generateData (constantSource (1 / 2)) generateAirlines) \<and>
   (\<exists>v. (generateData (constantSource (1 / 2)) generateAirlines ! 0) ''LX'' = Some v \<and>
        800 \<le> v \<and> v \<le> 5500)"
proof -
  have mem: "generateData (constantSource (1 / 2)) generateAirlines ! 0
      \<in> set (generateData (constantSource (1 / 2)) generateAirlines)"
    by (rule nth_mem) (simp add: length_generateData)
  from generateData_within_band [OF distinct_generateAirlines airlineLX_generateAirlines mem]
  show ?thesis
    by (simp add: distinct_generateAirlines airlineLX_generateAirlines mem airlineLX_simps)
qed

text \<open>Both stores of the loop body write the same clamped value, one of them rounded.\<close>

lemma rounded_at_airlineStep_same: "rounded_at (airlineStep rnd y m x S) (code x)"
  by (cases S) (simp add: rounded_at_def airlineStep_eq)

lemma rounded_at_airlineStep: "rounded_at S c \<Longrightarrow> rounded_at (airlineStep rnd y m x S) c"
  by (cases S) (simp add: rounded_at_def airlineStep_eq)

lemma rounded_at_fold: "rounded_at S c \<Longrightarrow> rounded_at (fold (airlineStep rnd y m) xs S) c"
  by (induction xs arbitrary: S) (simp_all add: rounded_at_airlineStep)

lemma rounded_at_fold_member:
  "a \<in> set xs \<Longrightarrow> rounded_at (fold (airlineStep rnd y m) xs S) (code a)"
proof (induction xs arbitrary: S)
  case Nil
  then show ?case by simp
next
  case (Cons x xs)
  show ?case
  proof (cases "a = x")
    case True
    then show ?thesis by (simp add: rounded_at_fold rounded_at_airlineStep_same)
  next
    case False
    with Cons.prems have "a \<in> set xs" by simp
    then show ?thesis by (simp add: Cons.IH)
  qed
qed

lemma first_month_LX:
  "fst (monthStep (sourceWithFirst (1 / 32) (1 / 2)) generateAirlines 2010 1
          (startState (sourceWithFirst (1 / 32) (1 / 2)) generateAirlines)) ''LX'' = Some (4125 / 2)"
  "last (fst (snd (monthStep (sourceWithFirst (1 / 32) (1 / 2)) generateAirlines 2010 1
          (startState (sourceWithFirst (1 / 32) (1 / 2)) generateAirlines)))) ''LX'' =
     Some (real_of_int (Math_round (4125 / 2)))"
proof -
  have len: "0 < length generateAirlines" by (simp add: generateAirlines_eq)
  have c: "code (generateAirlines ! 0) = ''LX''" "group (generateAirlines ! 0) = operating"
    "length generateAirlines = 12"
    by (simp_all add: generateAirlines_eq)
  from first_month_nth(2) [OF distinct_generateAirlines len, of "sourceWithFirst (1 / 32) (1 / 2)" 2010 1]
  show "fst (monthStep (sourceWithFirst (1 / 32) (1 / 2)) generateAirlines 2010 1
          (startState (sourceWithFirst (1 / 32) (1 / 2)) generateAirlines)) ''LX'' = Some (4125 / 2)"
    by (simp add: c sourceWithFirst_def perturbed_def applyTrends_def)
  from first_month_nth(3) [OF distinct_generateAirlines len, of "sourceWithFirst (1 / 32) (1 / 2)" 2010 1]
  show "last (fst (snd (monthStep (sourceWithFirst (1 / 32) (1 / 2)) generateAirlines 2010 1
          (startState (sourceWithFirst (1 / 32) (1 / 2)) generateAirlines)))) ''LX'' =
     Some (real_of_int (Math_round (4125 / 2)))"
    by (simp add: c sourceWithFirst_def perturbed_def applyTrends_def Math_round_def)
qed

lemma calls_startState: "snd (snd (startState rnd catalog)) = length catalog"
  using calls_fold_initLastValue [of rnd catalog Map.empty 0]
  by (simp add: startState_def initLastValues_def split_beta)

text \<open>
  C3 (as amended). One run of the loop body stores the clamped value as it is, not
  rounded, as the airline's last value, and stores that value rounded to the nearest
  integer as the sample. So after a month of the generator, for the \<open>i\<close>-th airline of
  a catalog with distinct codes, the stored last value is the clamped value computed
  from the previous last value and the airline's draw, the sample written for that
  month is this stored value rounded, and the two differ by at most one half.
\<close>

theorem sample_is_rounded_lastValue:
  assumes "distinct (map code catalog)" and "i < length catalog"
    and "monthStep rnd catalog year month (lastValues, dt, k) = (lastValues', dt', k')"
  shows "airlineStep rnd year month airline (lv, dp, n) =
           (lv(code airline \<mapsto>
              applyTrends (group airline) year month (perturbed (the (lv (code airline))) (rnd n))),
            dp(code airline \<mapsto> real_of_int (Math_round
              (applyTrends (group airline) year month (perturbed (the (lv (code airline))) (rnd n))))),
            n + 1) \<and>
         lastValues' (code (catalog ! i)) =
           Some (applyTrends (group (catalog ! i)) year month
                   (perturbed (the (lastValues (code (catalog ! i)))) (rnd (k + i)))) \<and>
         last dt' (code (catalog ! i)) =
           Some (real_of_int (Math_round (applyTrends (group (catalog ! i)) year month
                   (perturbed (the (lastValues (code (catalog ! i)))) (rnd (k + i)))))) \<and>
         \<bar>real_of_int (Math_round (applyTrends (group (catalog ! i)) year month
                   (perturbed (the (lastValues (code (catalog ! i)))) (rnd (k + i))))) -
            applyTrends (group (catalog ! i)) year month
                   (perturbed (the (lastValues (code (catalog ! i)))) (rnd (k + i)))\<bar> \<le> 1 / 2"
proof -
  let ?S = "fold (airlineStep rnd year month) catalog
              (lastValues, [''year'' \<mapsto> real year + (real month - 1) / 12], k)"
  from assms(3) have eq: "lastValues' = fst ?S" "last dt' = fst (snd ?S)"
    by (auto simp: monthStep_def Let_def split_beta)
  have body: "airlineStep rnd year month airline (lv, dp, n) =
           (lv(code airline \<mapsto>
              applyTrends (group airline) year month (perturbed (the (lv (code airline))) (rnd n))),
            dp(code airline \<mapsto> real_of_int (Math_round
              (applyTrends (group airline) year month (perturbed (the (lv (code airline))) (rnd n))))),
            n + 1)"
    by (simp add: airlineStep_eq)
  have stored: "fst ?S (code (catalog ! i)) =
           Some (applyTrends (group (catalog ! i)) year month
                   (perturbed (the (lastValues (code (catalog ! i)))) (rnd (k + i))))"
    and sample: "fst (snd ?S) (code (catalog ! i)) =
           Some (real_of_int (Math_round (applyTrends (group (catalog ! i)) year month
                   (perturbed (the (lastValues (code (catalog ! i)))) (rnd (k + i))))))"
    using fold_airlineStep_nth [OF assms(1,2), of rnd year month lastValues
      "[''year'' \<mapsto> real year + (real month - 1) / 12]" k]
    by simp_all
  show ?thesis
    unfolding eq using body stored sample by (intro conjI Math_round_near)
qed

theorem sample_is_rounded_lastValue_witness:
  "distinct (map code generateAirlines) \<and> 0 < length generateAirlines \<and>
   fst (monthStep (sourceWithFirst (1 / 32) (1 / 2)) generateAirlines 2010 1
          (startState (sourceWithFirst (1 / 32) (1 / 2)) generateAirlines)) (code (generateAirlines ! 0)) =
     Some (4125 / 2) \<and>
   last (fst (snd (monthStep (sourceWithFirst (1 / 32) (1 / 2)) generateAirlines 2010 1
          (startState (sourceWithFirst (1 / 32) (1 / 2)) generateAirlines)))) (code (generateAirlines ! 0)) =
     Some 2063"
proof -
  let ?src = "sourceWithFirst (1 / 32) (1 / 2)"
  let ?S0 = "startState ?src generateAirlines"
  let ?S1 = "monthStep ?src generateAirlines 2010 1 ?S0"
  have len: "0 < length generateAirlines" by (simp add: generateAirlines_eq)
  have c: "code (generateAirlines ! 0) = ''LX''" "group (generateAirlines ! 0) = operating"
    "length generateAirlines = 12"
    by (simp_all add: generateAirlines_eq)
  have step: "monthStep ?src generateAirlines 2010 1 (fst ?S0, fst (snd ?S0), snd (snd ?S0)) =
      (fst ?S1, fst (snd ?S1), snd (snd ?S1))"
    by simp
  have start: "fst ?S0 (code (generateAirlines ! 0)) = Some (?src 0 * 2000 + 2000)"
    using first_month_nth(1) [OF distinct_generateAirlines len, of ?src] by (simp add: c)
  from sample_is_rounded_lastValue [OF distinct_generateAirlines len step] start
  show ?thesis
    by (simp add: distinct_generateAirlines len c calls_startState sourceWithFirst_def
        perturbed_def applyTrends_def Math_round_def)
qed

text \<open>
  The claim as stated fails: with a first draw of 1/32 and every later draw 1/2, after
  January 2010 the stored last value of LX is 2062.5 while its sample is 2063.
\<close>

theorem lastValue_not_rounded:
  "fst (monthStep (sourceWithFirst (1 / 32) (1 / 2)) generateAirlines 2010 1
          (startState (sourceWithFirst (1 / 32) (1 / 2)) generateAirlines)) ''LX'' = Some (4125 / 2) \<and>
   last (fst (snd (monthStep (sourceWithFirst (1 / 32) (1 / 2)) generateAirlines 2010 1
          (startState (sourceWithFirst (1 / 32) (1 / 2)) generateAirlines)))) ''LX'' = Some 2063 \<and>
   (4125 / 2 :: real) \<noteq> 2063"
  using first_month_LX by (simp add: Math_round_def)

text \<open>
  C9 (as amended). The generator always runs over the fifteen years 2010 to 2024 and
  returns 180 data points. If every draw is 0.5 then, for a catalog with distinct codes
  (two operating and two discontinued airlines, or any other), every airline starts at
  3000 (operating) or 1750 (discontinued) and each of its 12 samples of the first year
  equals that initial value rounded, which is the value itself.
\<close>

theorem constant_half_first_year:
  assumes "distinct (map code catalog)" "airline \<in> set catalog" "t < 12"
  shows "length (generateData (constantSource (1 / 2)) catalog) = 180 \<and>
         fst (initLastValues (constantSource (1 / 2)) catalog) (code airline) =
           Some (if group airline = operating then 3000 else 1750) \<and>
         (generateData (constantSource (1 / 2)) catalog ! t) (code airline) =
           Some (real_of_int (Math_round (if group airline = operating then 3000 else 1750)))"
proof -
  from assms(3) have "t < 72" by simp
  with constantSource_half assms(1,2)
  have "(generateData (constantSource (1 / 2)) catalog ! t) (code airline) = Some (initialValue (group airline))"
    by (rule generateData_half_early)
  moreover have "real_of_int (Math_round (if group airline = operating then 3000 else 1750)) =
      initialValue (group airline)"
    using Math_round_initialValue [of "group airline"] by (simp add: initialValue_eq)
  moreover have "stored_initial catalog (fst (startState (constantSource (1 / 2)) catalog))"
    using constantSource_half assms(1) by (rule stored_initial_startState)
  then have "fst (initLastValues (constantSource (1 / 2)) catalog) (code airline) =
      Some (if group airline = operating then 3000 else 1750)"
    using assms(2) by (simp add: stored_initial_def startState_def split_beta initialValue_eq)
  ultimately show ?thesis by (simp add: length_generateData)
qed

theorem constant_half_first_year_witness:
  "distinct (map code testCatalog) \<and> airlineCX \<in> set testCatalog \<and>
   length (generateData (constantSource (1 / 2)) testCatalog) = 180 \<and>
   fst (initLastValues (constantSource (1 / 2)) testCatalog) ''CX'' = Some 1750 \<and>
   (generateData (constantSource (1 / 2)) testCatalog ! 11) ''CX'' = Some 1750"
  using constant_half_first_year [OF distinct_testCatalog airlineCX_testCatalog, of 11]
  by (simp add: Math_round_def distinct_testCatalog airlineCX_testCatalog airlineCX_simps)

text \<open>
  The claim as stated fails: there is no one-year run. The matrix has 180 data points,
  and with every draw 0.5 the sample of CX is 1750 in January 2010 but 1745 in January
  2016, the first month of the decline.
\<close>

theorem constant_half_not_constant:
  "length (generateData (constantSource (1 / 2)) testCatalog) = 180 \<and>
   (generateData (constantSource (1 / 2)) testCatalog ! 0) ''CX'' = Some 1750 \<and>
   (generateData (constantSource (1 / 2)) testCatalog ! 72) ''CX'' = Some 1745"
proof -
  have "(0::nat) < 72" by simp
  with constantSource_half distinct_testCatalog airlineCX_testCatalog
  have "(generateData (constantSource (1 / 2)) testCatalog ! 0) (code airlineCX) =
      Some (initialValue (group airlineCX))"
    by (rule generateData_half_early)
  moreover from constantSource_half distinct_testCatalog airlineCX_testCatalog
  have "(generateData (constantSource (1 / 2)) testCatalog ! 72) (code airlineCX) =
      Some (real_of_int (Math_round (applyTrends (group airlineCX) 2016 1 (initialValue (group airlineCX)))))"
    by (rule generateData_half_2016)
  ultimately show ?thesis
    by (simp add: length_generateData airlineCX_simps applyTrends_def initialValue_def Math_round_def)
qed

text \<open>The two loop bodies and the two first loops are the same functions.\<close>

lemma airlineStep_LC_eq: "airlineStep_LC = airlineStep"
  unfolding fun_eq_iff airlineStep_LC_def airlineStep_def perturbed_def applyTrends_def Let_def
  by (intro allI refl)

lemma initLastValue_LC_eq: "initLastValue_LC = initLastValue"
  unfolding fun_eq_iff initLastValue_LC_def initLastValue_def
  by (intro allI refl)

lemma yearStep_fun:
  "yearStep rnd catalog =
     (\<lambda>year. fold (\<lambda>month (lastValues, dt, k).
        let dataPoint = [''year'' \<mapsto> real year + (real month - 1) / 12];
            (lastValues, dataPoint, k) =
              fold (airlineStep rnd year month) catalog (lastValues, dataPoint, k)
        in (lastValues, dt @ [dataPoint], k)) months)"
  unfolding fun_eq_iff yearStep_def monthStep_def
  by (intro allI refl)

text \<open>
  C10. The generator of \<^verbatim>\<open>src/components/LineChart.tsx\<close> and the generator of
  \<^verbatim>\<open>src/App.tsx\<close> return the same matrix for every catalog and every sequence of draws.
\<close>

theorem generateData_LC_eq: "generateData_LC rnd catalog = generateData rnd catalog"
  unfolding generateData_LC_def generateData_def initLastValues_def yearStep_fun
    airlineStep_LC_eq initLastValue_LC_eq years_def months_def Let_def
  by (rule refl)

section \<open>Claims about the component\<close>

text \<open>
  C4. In every state of the component an airline is visible exactly when its group is
  not in the set of hidden groups and its code is not in the set of hidden items.
  Toggling a group leaves the set of hidden items as it is. So, once the group of the
  discontinued airlines is hidden, toggling one discontinued airline (whether that
  hides or un-hides it individually) leaves it invisible.
\<close>

theorem visibility_independent_sets:
  "(isItemVisible s airline \<longleftrightarrow> group airline \<notin> hiddenGroups s \<and> code airline \<notin> hiddenItems s) \<and>
   hiddenItems (toggleGroup g s) = hiddenItems s \<and>
   (group airline = discontinued \<longrightarrow> discontinued \<notin> hiddenGroups s \<longrightarrow>
      \<not> isItemVisible (toggleItem (code airline) (toggleGroup discontinued s)) airline)"
  by (simp add: isItemVisible_def toggleGroup_def toggleItem_def)

theorem visibility_independent_sets_witness:
  "group airlineCX = discontinued \<and>
   discontinued \<notin> hiddenGroups (toggleItem ''CX'' (mount (constantSource (1 / 2)) True)) \<and>
   ''CX'' \<in> hiddenItems (toggleItem ''CX'' (mount (constantSource (1 / 2)) True)) \<and>
   ''CX'' \<notin> hiddenItems (toggleItem ''CX'' (toggleGroup discontinued
       (toggleItem ''CX'' (mount (constantSource (1 / 2)) True)))) \<and>
   \<not> isItemVisible (toggleItem ''CX'' (toggleGroup discontinued
       (toggleItem ''CX'' (mount (constantSource (1 / 2)) True)))) airlineCX"
  using visibility_independent_sets
    [of "toggleItem ''CX'' (mount (constantSource (1 / 2)) True)" airlineCX discontinued]
  by (simp add: toggleItem_def toggleGroup_def mount_def airlineCX_simps)

lemma find_code:
  "h \<in> code ` set xs \<Longrightarrow> \<exists>a. find (\<lambda>a. code a = h) xs = Some a \<and> code a = h \<and> a \<in> set xs"
  by (induction xs) auto

text \<open>
  C5. In single airline mode, with a catalog whose codes are not empty (as those of
  \<^verbatim>\<open>generateAirlines\<close> are): the tooltip is \<^verbatim>\<open>null\<close> when no airline is hovered or
  there is no active index; and when the hovered code is a code of the catalog and the
  active index is inside the matrix, the tooltip shows the airline of that code, the
  \<^verbatim>\<open>year\<close> of the data point at the active index, and the value of that data point
  for the hovered code, with 0 in place of an \<^verbatim>\<open>undefined\<close> value. So, as long as a
  hovered code is one of the catalog and an active index is inside the matrix, the
  tooltip is \<^verbatim>\<open>null\<close> exactly when nothing is hovered or there is no active index.
\<close>

theorem CustomTooltip_single:
  assumes "singleAirlineMode s" and "[] \<notin> code ` set (airlines s)"
  shows "(hoveredItem s = None \<or> activeIndex s = None \<longrightarrow> CustomTooltip s = None) \<and>
         (\<forall>h i. hoveredItem s = Some h \<and> h \<in> code ` set (airlines s) \<and>
                activeIndex s = Some i \<and> i < length (data s) \<longrightarrow>
            (\<exists>airline. find (\<lambda>a. code a = h) (airlines s) = Some airline \<and> code airline = h \<and>
               CustomTooltip s =
                 Some (Single airline ((data s ! i) ''year'')
                         (case (data s ! i) h of None \<Rightarrow> 0 | Some v \<Rightarrow> v)))) \<and>
         ((hoveredItem s = None \<or> (\<exists>h. hoveredItem s = Some h \<and> h \<in> code ` set (airlines s))) \<and>
          (activeIndex s = None \<or> (\<exists>i. activeIndex s = Some i \<and> i < length (data s))) \<longrightarrow>
            (CustomTooltip s = None \<longleftrightarrow> hoveredItem s = None \<or> activeIndex s = None))"
proof -
  have none: "CustomTooltip s = None" if "hoveredItem s = None \<or> activeIndex s = None"
    using that assms(1) by (auto simp: CustomTooltip_def Let_def split: option.splits)
  have some: "\<exists>airline. find (\<lambda>a. code a = h) (airlines s) = Some airline \<and> code airline = h \<and>
               CustomTooltip s =
                 Some (Single airline ((data s ! i) ''year'')
                         (case (data s ! i) h of None \<Rightarrow> 0 | Some v \<Rightarrow> v))"
    if a: "hoveredItem s = Some h \<and> h \<in> code ` set (airlines s) \<and>
           activeIndex s = Some i \<and> i < length (data s)" for h i
  proof -
    from a obtain airline where f: "find (\<lambda>a. code a = h) (airlines s) = Some airline" "code airline = h"
      using find_code by blast
    from a assms(2) have "h \<noteq> []" by blast
    with a f assms(1) have "CustomTooltip s =
        Some (Single airline ((data s ! i) ''year'') (case (data s ! i) h of None \<Rightarrow> 0 | Some v \<Rightarrow> v))"
      by (simp add: CustomTooltip_def Let_def shownValue_def)
    with f show ?thesis by blast
  qed
  have iff: "CustomTooltip s = None \<longleftrightarrow> hoveredItem s = None \<or> activeIndex s = None"
    if d: "(hoveredItem s = None \<or> (\<exists>h. hoveredItem s = Some h \<and> h \<in> code ` set (airlines s))) \<and>
           (activeIndex s = None \<or> (\<exists>i. activeIndex s = Some i \<and> i < length (data s)))"
  proof
    assume n: "CustomTooltip s = None"
    show "hoveredItem s = None \<or> activeIndex s = None"
    proof (rule ccontr)
      assume "\<not> (hoveredItem s = None \<or> activeIndex s = None)"
      with d obtain h i where "hoveredItem s = Some h \<and> h \<in> code ` set (airlines s) \<and>
           activeIndex s = Some i \<and> i < length (data s)"
        by blast
      from some [OF this] n show False by auto
    qed
  next
    assume "hoveredItem s = None \<or> activeIndex s = None"
    then show "CustomTooltip s = None" by (rule none)
  qed
  from none some iff show ?thesis by blast
qed

lemma hoverLX5_simps:
  "singleAirlineMode hoverLX5" "airlines hoverLX5 = generateAirlines"
  "data hoverLX5 = generateData (constantSource (1 / 2)) generateAirlines"
  "hoveredItem hoverLX5 = Some ''LX''" "activeIndex hoverLX5 = Some 5"
  by (simp_all add: hoverLX5_def setActiveIndex_def setHoveredItem_def mount_def)

theorem CustomTooltip_single_witness:
  "singleAirlineMode hoverLX5 \<and> [] \<notin> code ` set (airlines hoverLX5) \<and>
   CustomTooltip hoverLX5 = Some (Single airlineLX ((data hoverLX5 ! 5) ''year'') 3000) \<and>
   CustomTooltip (setHoveredItem None hoverLX5) = None"
proof -
  have m: "singleAirlineMode hoverLX5" and ne: "[] \<notin> code ` set (airlines hoverLX5)"
    by (simp_all add: hoverLX5_simps nonempty_codes_generateAirlines)
  have m': "singleAirlineMode (setHoveredItem None hoverLX5)"
    and ne': "[] \<notin> code ` set (airlines (setHoveredItem None hoverLX5))"
    by (simp_all add: setHoveredItem_def hoverLX5_simps nonempty_codes_generateAirlines)
  have f: "find (\<lambda>a. code a = ''LX'') generateAirlines = Some airlineLX"
    by (simp add: generateAirlines_eq airlineLX_def)
  have "(5::nat) < 72" by simp
  with constantSource_half distinct_generateAirlines airlineLX_generateAirlines
  have "(generateData (constantSource (1 / 2)) generateAirlines ! 5) (code airlineLX) =
      Some (initialValue (group airlineLX))"
    by (rule generateData_half_early)
  then have v: "(data hoverLX5 ! 5) ''LX'' = Some 3000"
    by (simp add: hoverLX5_simps airlineLX_simps initialValue_eq)
  have "''LX'' \<in> code ` set generateAirlines" by (simp add: generateAirlines_eq)
  moreover from CustomTooltip_single [OF m ne]
  have "\<forall>h i. hoveredItem hoverLX5 = Some h \<and> h \<in> code ` set (airlines hoverLX5) \<and>
                activeIndex hoverLX5 = Some i \<and> i < length (data hoverLX5) \<longrightarrow>
            (\<exists>airline. find (\<lambda>a. code a = h) (airlines hoverLX5) = Some airline \<and> code airline = h \<and>
               CustomTooltip hoverLX5 =
                 Some (Single airline ((data hoverLX5 ! i) ''year'')
                         (case (data hoverLX5 ! i) h of None \<Rightarrow> 0 | Some v \<Rightarrow> v)))"
    by blast
  ultimately have "CustomTooltip hoverLX5 = Some (Single airlineLX ((data hoverLX5 ! 5) ''year'') 3000)"
    using f v by (auto simp: hoverLX5_simps length_generateData)
  moreover from CustomTooltip_single [OF m' ne']
  have "hoveredItem (setHoveredItem None hoverLX5) = None \<or> activeIndex (setHoveredItem None hoverLX5) = None
      \<longrightarrow> CustomTooltip (setHoveredItem None hoverLX5) = None"
    by blast
  then have "CustomTooltip (setHoveredItem None hoverLX5) = None"
    by (simp add: setHoveredItem_def)
  ultimately show ?thesis using m ne by simp
qed

text \<open>The comparator of the render order sends the hovered airline behind every other one.\<close>

lemma insert_by_hovered:
  "insert_by (\<lambda>a b. if Some (code a) = hov then 1 else if Some (code b) = hov then - 1 else 0) x ys =
     (if Some (code x) = hov then ys @ [x] else x # ys)"
  by (induction ys) simp_all

lemma Array_sort_hovered:
  "distinct (map code xs) \<Longrightarrow>
     Array_sort (\<lambda>a b. if Some (code a) = hov then 1 else if Some (code b) = hov then - 1 else 0) xs =
       filter (\<lambda>a. Some (code a) \<noteq> hov) xs @ filter (\<lambda>a. Some (code a) = hov) xs"
proof (induction xs)
  case Nil
  then show ?case by (simp add: Array_sort_def)
next
  case (Cons x xs)
  then have IH: "Array_sort (\<lambda>a b. if Some (code a) = hov then 1 else if Some (code b) = hov then - 1 else 0) xs =
       filter (\<lambda>a. Some (code a) \<noteq> hov) xs @ filter (\<lambda>a. Some (code a) = hov) xs"
    by simp
  show ?case
  proof (cases "Some (code x) = hov")
    case True
    from Cons.prems have "code x \<notin> code ` set xs" by simp
    with True have "\<forall>a\<in>set xs. Some (code a) \<noteq> hov" by blast
    then have "filter (\<lambda>a. Some (code a) = hov) xs = []" "filter (\<lambda>a. Some (code a) \<noteq> hov) xs = xs"
      by (simp_all add: filter_empty_conv)
    with True IH show ?thesis
      using insert_by_hovered [of hov x] by (simp add: Array_sort_def)
  next
    case False
    with IH show ?thesis
      using insert_by_hovered [of hov x] by (simp add: Array_sort_def)
  qed
qed

text \<open>
  C6. For a catalog with distinct codes and every hover state, the render order is the
  catalog with the hovered airline, if there is one, moved to the end: the airlines
  that are not hovered keep their catalog order, and a hovered code of the catalog is
  the code of the last entry.
\<close>

theorem sortedAirlines_hovered_last:
  assumes "distinct (map code (airlines s))"
  shows "sortedAirlines s =
           filter (\<lambda>a. Some (code a) \<noteq> hoveredItem s) (airlines s) @
           filter (\<lambda>a. Some (code a) = hoveredItem s) (airlines s) \<and>
         (\<forall>h. hoveredItem s = Some h \<and> h \<in> code ` set (airlines s) \<longrightarrow>
              code (last (sortedAirlines s)) = h)"
proof (intro conjI allI impI)
  show eq: "sortedAirlines s =
           filter (\<lambda>a. Some (code a) \<noteq> hoveredItem s) (airlines s) @
           filter (\<lambda>a. Some (code a) = hoveredItem s) (airlines s)"
    unfolding sortedAirlines_def using assms by (rule Array_sort_hovered)
  fix h assume h: "hoveredItem s = Some h \<and> h \<in> code ` set (airlines s)"
  then have ne: "filter (\<lambda>a. Some (code a) = hoveredItem s) (airlines s) \<noteq> []"
    by (auto simp: filter_empty_conv)
  then have "last (sortedAirlines s) \<in> set (filter (\<lambda>a. Some (code a) = hoveredItem s) (airlines s))"
    unfolding eq by (simp add: last_in_set del: set_filter)
  with h show "code (last (sortedAirlines s)) = h" by auto
qed

theorem sortedAirlines_hovered_last_witness:
  "distinct (map code (airlines (setHoveredItem (Some ''BA'') (mount (constantSource (1 / 2)) True)))) \<and>
   code (last (sortedAirlines (setHoveredItem (Some ''BA'') (mount (constantSource (1 / 2)) True)))) = ''BA'' \<and>
   map code (sortedAirlines (setHoveredItem (Some ''BA'') (mount (constantSource (1 / 2)) True))) =
     [''LX'', ''AF'', ''LH'', ''KL'', ''IB'', ''CX'', ''LZ'', ''C3'', ''UL'', ''AA'', ''DL'', ''BA'']"
  using sortedAirlines_hovered_last [of "setHoveredItem (Some ''BA'') (mount (constantSource (1 / 2)) True)"]
  by (simp add: setHoveredItem_def mount_def generateAirlines_eq)

text \<open>
  C7. Setting the mode changes neither the hidden items, nor the hidden groups, nor the
  hovered item, nor the active index, nor the matrix, which is generated at mount from
  the catalog and the draws alone. Every handler of the component commutes with setting
  the mode, so no handler depends on it, and so does the sibling's handler of a leave.
  Visibility, line width and render order do not depend on the mode either; what
  remains to depend on it is the opacity, the active dot and the tooltip.
\<close>

theorem mode_switch_frame:
  "hiddenItems (setSingleAirlineMode b s) = hiddenItems s \<and>
   hiddenGroups (setSingleAirlineMode b s) = hiddenGroups s \<and>
   hoveredItem (setSingleAirlineMode b s) = hoveredItem s \<and>
   activeIndex (setSingleAirlineMode b s) = activeIndex s \<and>
   data (setSingleAirlineMode b s) = data s \<and>
   data (mount rnd b) = generateData rnd generateAirlines \<and>
   handleEvent e (setSingleAirlineMode b s) = setSingleAirlineMode b (handleEvent e s) \<and>
   handleMouseLeave_LC (setSingleAirlineMode b s) = setSingleAirlineMode b (handleMouseLeave_LC s) \<and>
   isItemVisible (setSingleAirlineMode b s) airline = isItemVisible s airline \<and>
   getLineWidth (setSingleAirlineMode b s) airline = getLineWidth s airline \<and>
   sortedAirlines (setSingleAirlineMode b s) = sortedAirlines s"
proof -
  have "handleEvent e (setSingleAirlineMode b s) = setSingleAirlineMode b (handleEvent e s)"
    by (cases e)
       (simp_all add: setSingleAirlineMode_def toggleItem_def toggleGroup_def setHoveredItem_def
          setActiveIndex_def handleMouseMove_def handleMouseLeave_def Let_def split: option.splits)
  moreover have "sortedAirlines (setSingleAirlineMode b s) = sortedAirlines s"
    by (simp add: sortedAirlines_def setSingleAirlineMode_def cong: if_cong)
  moreover have "handleMouseLeave_LC (setSingleAirlineMode b s) = setSingleAirlineMode b (handleMouseLeave_LC s)"
    by (simp add: handleMouseLeave_LC_def setSingleAirlineMode_def setActiveIndex_def Let_def)
  ultimately show ?thesis
    by (simp add: setSingleAirlineMode_def mount_def isItemVisible_def getLineWidth_def)
qed

text \<open>
  The handler of the component of \<^verbatim>\<open>src/App.tsx\<close> throttles: a move that arrives less
  than 16 ms after the last accepted move leaves the state as it is, and a move that
  arrives 16 ms or more after it and reports an index sets the active index and records
  its time.
\<close>

lemma handleMouseMove_throttle:
  "(now - lastUpdateRef s < 16 \<longrightarrow> handleMouseMove now state s = s) \<and>
   (16 \<le> now - lastUpdateRef s \<longrightarrow> state = Some st \<longrightarrow> activeTooltipIndex st = Some i \<longrightarrow>
      handleMouseMove now state s = s\<lparr>activeIndex := Some i, lastUpdateRef := now\<rparr>)"
  by (simp add: handleMouseMove_def throttleMs_def setActiveIndex_def Let_def)

text \<open>
  C8. Moves are to be accepted at most once in 16 ms, a move that comes earlier being
  dropped. The handler of \<^verbatim>\<open>src/components/LineChart.tsx\<close> does not do so: after a
  move at 100 ms that reports index 3, a move at 105 ms that reports index 7 is dropped
  by the handler of \<^verbatim>\<open>src/App.tsx\<close>, the active index staying 3, and accepted by the
  handler of \<^verbatim>\<open>src/components/LineChart.tsx\<close>, the active index becoming 7.
\<close>

theorem handleMouseMove_LC_not_throttled:
  "activeIndex (handleMouseMove 105 (Some \<lparr>activeTooltipIndex = Some 7\<rparr>)
     (handleMouseMove 100 (Some \<lparr>activeTooltipIndex = Some 3\<rparr>) (mount (constantSource (1 / 2)) True))) = Some 3 \<and>
   activeIndex (handleMouseMove_LC 100 (Some \<lparr>activeTooltipIndex = Some 3\<rparr>)
     (mount (constantSource (1 / 2)) True)) = Some 3 \<and>
   activeIndex (handleMouseMove_LC 105 (Some \<lparr>activeTooltipIndex = Some 7\<rparr>)
     (handleMouseMove_LC 100 (Some \<lparr>activeTooltipIndex = Some 3\<rparr>) (mount (constantSource (1 / 2)) True))) = Some 7"
  by (simp add: handleMouseMove_def handleMouseMove_LC_def throttleMs_def setActiveIndex_def
      mount_def Let_def)

end
